theory Spec2Isabelle
  imports Complex_Main
begin

section \<open>Problem model\<close>

text \<open>
  The search engine of \<^verbatim>\<open>client/src/lib/algorithms.ts\<close> over the problem types of the shared
  schema. JavaScript numbers are modelled exactly: grid coordinates as \<open>int\<close>, costs,
  weights and heuristic values as \<open>real\<close> (rounding of floating-point sums is not modelled).
  A \<open>Record<string, T>\<close> is a map \<open>string \<rightharpoonup> T\<close> holding the object's own properties; a
  \<open>Set<string>\<close> is the list of its elements in insertion order. The wall-clock field
  \<open>executionTimeMs\<close> of a result is left out.
\<close>

record grid_cell =
  row :: int
  col :: int
  isObstacle :: bool
  isStart :: bool
  isGoal :: bool
  weight :: real

record graph_node =
  node_id :: string
  node_x :: real
  node_y :: real
  node_label :: "string option"
  node_isStart :: bool
  node_isGoal :: bool
  node_heuristic :: "real option"

record graph_edge =
  edge_from :: string
  edge_to :: string
  edge_weight :: real

record grid_problem =
  rows :: int
  cols :: int
  cells :: "grid_cell list"
  start :: "int \<times> int"
  goal :: "int \<times> int"
  allowDiagonal :: bool

record graph_problem =
  nodes :: "graph_node list"
  edges :: "graph_edge list"
  startNodeId :: string
  goalNodeId :: string
  isDirected :: bool

datatype problem = Grid grid_problem | Graph graph_problem

subsection \<open>Node identifiers of a grid\<close>

text \<open>
  \<^verbatim>\<open>gridCellToId(row, col) = `${row}-${col}`\<close>: the decimal numerals of the two integers
  around a dash.
\<close>

definition digit_chars :: string where
  "digit_chars = ''0123456789''"

fun show_nat :: "nat \<Rightarrow> string" where
  "show_nat n =
     (if n < 10 then [digit_chars ! n]
      else show_nat (n div 10) @ [digit_chars ! (n mod 10)])"

declare show_nat.simps [simp del]

definition show_int :: "int \<Rightarrow> string" where
  "show_int i = (if i < 0 then CHR ''-'' # show_nat (nat (- i)) else show_nat (nat i))"

definition gridCellToId :: "int \<Rightarrow> int \<Rightarrow> string" where
  "gridCellToId r c = show_int r @ ''-'' @ show_int c"

text \<open>
  \<^verbatim>\<open>idToGridCell(id)\<close> is \<^verbatim>\<open>id.split("-").map(Number)\<close>, of which the first two entries
  are read. \<open>split_dash\<close> is \<^verbatim>\<open>split("-")\<close>. \<open>js_Number\<close> is \<^verbatim>\<open>Number\<close> on the pieces of
  the identifiers \<open>gridCellToId\<close> makes: the empty string is 0 and a string of decimal
  digits is its value, read as an integer of any size (\<^verbatim>\<open>Number\<close> rounds a numeral above
  \<open>2\<^sup>5\<^sup>3\<close> to a double). On every other piece the result is \<open>None\<close>. It stands for \<^verbatim>\<open>NaN\<close>
  where the piece is no numeric literal of JavaScript; a literal in another notation (a
  sign, a fraction, an exponent, a radix prefix, blanks around it) is not read here, and
  no statement below speaks of an identifier with such a piece. A missing second piece is
  \<^verbatim>\<open>undefined\<close>, which every later arithmetic turns into \<^verbatim>\<open>NaN\<close>: \<open>None\<close> as well.
\<close>

fun split_dash :: "string \<Rightarrow> string list" where
  "split_dash [] = [[]]"
| "split_dash (c # cs) =
     (if c = CHR ''-'' then [] # split_dash cs
      else (case split_dash cs of [] \<Rightarrow> [[c]] | p # ps \<Rightarrow> (c # p) # ps))"

definition digit_val :: "char \<Rightarrow> nat option" where
  "digit_val c = (if c \<in> set digit_chars then Some (of_char c - 48) else None)"

fun digits_value :: "nat \<Rightarrow> string \<Rightarrow> nat option" where
  "digits_value acc [] = Some acc"
| "digits_value acc (c # cs) =
     (case digit_val c of None \<Rightarrow> None | Some d \<Rightarrow> digits_value (10 * acc + d) cs)"

definition js_Number :: "string \<Rightarrow> int option" where
  "js_Number s = map_option int (digits_value 0 s)"

definition idToGridCell :: "string \<Rightarrow> int option \<times> int option" where
  "idToGridCell nodeId =
     (case map js_Number (split_dash nodeId) of
        [] \<Rightarrow> (None, None)
      | [r] \<Rightarrow> (r, None)
      | r # c # _ \<Rightarrow> (r, c))"

subsection \<open>Neighbor resolver\<close>

definition directions :: "bool \<Rightarrow> (int \<times> int) list" where
  "directions diagonal =
     (if diagonal
      then [(-1, -1), (-1, 0), (-1, 1),
            (0, -1),           (0, 1),
            (1, -1),  (1, 0),  (1, 1)]
      else [(-1, 0),
            (0, -1), (0, 1),
            (1, 0)])"

text \<open>The body of the \<^verbatim>\<open>for\<close> loop of \<^verbatim>\<open>getGridNeighbors\<close>, pushing onto \<open>neighbors\<close>.\<close>

fun gridNeighborsLoop ::
  "grid_problem \<Rightarrow> int \<Rightarrow> int \<Rightarrow> (int \<times> int) list \<Rightarrow> (string \<times> real) list \<Rightarrow> (string \<times> real) list"
where
  "gridNeighborsLoop p r c [] neighbors = neighbors"
| "gridNeighborsLoop p r c ((dr, dc) # ds) neighbors =
     (let newRow = r + dr; newCol = c + dc in
      if newRow \<ge> 0 \<and> newRow < rows p \<and> newCol \<ge> 0 \<and> newCol < cols p then
        (case find (\<lambda>cell. row cell = newRow \<and> col cell = newCol) (cells p) of
           None \<Rightarrow> gridNeighborsLoop p r c ds neighbors
         | Some cell \<Rightarrow>
             if \<not> isObstacle cell then
               let cost = (if \<bar>dr\<bar> + \<bar>dc\<bar> = 2 then 1.414 else 1) in
               gridNeighborsLoop p r c ds
                 (neighbors @ [(gridCellToId newRow newCol, cost * weight cell)])
             else gridNeighborsLoop p r c ds neighbors)
      else gridNeighborsLoop p r c ds neighbors)"

text \<open>
  With a coordinate that is \<^verbatim>\<open>NaN\<close> every bounds test of the loop is false, so the loop
  pushes nothing.
\<close>

definition getGridNeighbors :: "grid_problem \<Rightarrow> string \<Rightarrow> (string \<times> real) list" where
  "getGridNeighbors p nodeId =
     (case idToGridCell nodeId of
        (Some r, Some c) \<Rightarrow> gridNeighborsLoop p r c (directions (allowDiagonal p)) []
      | _ \<Rightarrow> [])"

fun graphNeighborsLoop ::
  "graph_problem \<Rightarrow> string \<Rightarrow> graph_edge list \<Rightarrow> (string \<times> real) list \<Rightarrow> (string \<times> real) list"
where
  "graphNeighborsLoop p nodeId [] neighbors = neighbors"
| "graphNeighborsLoop p nodeId (e # es) neighbors =
     (let neighbors1 =
            (if edge_from e = nodeId then neighbors @ [(edge_to e, edge_weight e)]
             else neighbors);
          neighbors2 =
            (if \<not> isDirected p \<and> edge_to e = nodeId
             then neighbors1 @ [(edge_from e, edge_weight e)]
             else neighbors1)
      in graphNeighborsLoop p nodeId es neighbors2)"

definition getGraphNeighbors :: "graph_problem \<Rightarrow> string \<Rightarrow> (string \<times> real) list" where
  "getGraphNeighbors p nodeId = graphNeighborsLoop p nodeId (edges p) []"

fun getNeighbors :: "problem \<Rightarrow> string \<Rightarrow> (string \<times> real) list" where
  "getNeighbors (Grid g) nodeId = getGridNeighbors g nodeId"
| "getNeighbors (Graph g) nodeId = getGraphNeighbors g nodeId"

fun getStartId :: "problem \<Rightarrow> string" where
  "getStartId (Grid g) = gridCellToId (fst (start g)) (snd (start g))"
| "getStartId (Graph g) = startNodeId g"

fun getGoalId :: "problem \<Rightarrow> string" where
  "getGoalId (Grid g) = gridCellToId (fst (goal g)) (snd (goal g))"
| "getGoalId (Graph g) = goalNodeId g"

subsection \<open>Heuristic\<close>

text \<open>
  \<^verbatim>\<open>manhattanDistance\<close>; the result \<open>None\<close> is \<^verbatim>\<open>NaN\<close>, which the grid branch returns
  when a coordinate did not decode.
\<close>

text \<open>\<^verbatim>\<open>Math.sqrt(Math.pow(dx, 2) + Math.pow(dy, 2))\<close>; the square root is not computed by
  evaluation.\<close>

definition euclidean :: "real \<Rightarrow> real \<Rightarrow> real" where
  euclidean_def [code del]: "euclidean dx dy = sqrt (dx\<^sup>2 + dy\<^sup>2)"

fun manhattanDistance :: "string \<Rightarrow> string \<Rightarrow> problem \<Rightarrow> real option" where
  "manhattanDistance nodeId goalId (Grid g) =
     (case (idToGridCell nodeId, idToGridCell goalId) of
        ((Some r1, Some c1), (Some r2, Some c2)) \<Rightarrow> Some (of_int (\<bar>r1 - r2\<bar> + \<bar>c1 - c2\<bar>))
      | _ \<Rightarrow> None)"
| "manhattanDistance nodeId goalId (Graph g) =
     (case (find (\<lambda>n. node_id n = nodeId) (nodes g), find (\<lambda>n. node_id n = goalId) (nodes g)) of
        (Some currentNode, Some goalNode) \<Rightarrow>
          Some (euclidean (node_x currentNode - node_x goalNode)
                  (node_y currentNode - node_y goalNode) / 50)
      | _ \<Rightarrow> Some 0)"


text \<open>
  The value the search algorithms store and compare. Every identifier they pass comes from
  \<open>getStartId\<close>, \<open>getGoalId\<close> or \<open>getNeighbors\<close>, which decode (lemma
  \<open>manhattanDistance_gridCellToId\<close> below), so the \<^verbatim>\<open>NaN\<close> branch is not met there.
\<close>

definition heuristic :: "problem \<Rightarrow> string \<Rightarrow> string \<Rightarrow> real" where
  "heuristic p goalId nodeId =
     (case manhattanDistance nodeId goalId p of Some h \<Rightarrow> h | None \<Rightarrow> 0)"

text \<open>Every identifier the neighbor resolver can return, for the termination measures.\<close>

fun allIds :: "problem \<Rightarrow> string set" where
  "allIds (Grid g) = (\<lambda>cell. gridCellToId (row cell) (col cell)) ` set (cells g)"
| "allIds (Graph g) = edge_from ` set (edges g) \<union> edge_to ` set (edges g)"

text \<open>
  The identifiers \<open>gridCellToId\<close> makes always decode: the pieces around the dashes are
  decimal numerals or empty.
\<close>

lemma show_nat_digits: "set (show_nat n) \<subseteq> set digit_chars"
proof (induction n rule: show_nat.induct)
  case (1 n)
  have len: "length digit_chars = 10" by (simp add: digit_chars_def)
  show ?case
  proof (cases "n < 10")
    case True
    then have "digit_chars ! n \<in> set digit_chars" using len by (intro nth_mem) simp
    with True show ?thesis by (subst show_nat.simps) simp
  next
    case False
    have "digit_chars ! (n mod 10) \<in> set digit_chars" using len by (intro nth_mem) simp
    with False 1 show ?thesis by (subst show_nat.simps) simp
  qed
qed

lemma digits_value_digits: "set s \<subseteq> set digit_chars \<Longrightarrow> digits_value acc s \<noteq> None"
  by (induction s arbitrary: acc) (auto simp: digit_val_def)

lemma js_Number_show_nat: "\<exists>y. js_Number (show_nat n) = Some y"
  using digits_value_digits [OF show_nat_digits, of 0 n] by (auto simp: js_Number_def)

lemma js_Number_empty: "js_Number [] = Some 0"
  by (simp add: js_Number_def)

lemma dash_not_digit: "CHR ''-'' \<notin> set (show_nat n)"
  using show_nat_digits [of n] by (auto simp: digit_chars_def)

lemma split_dash_prefix:
  "CHR ''-'' \<notin> set ds \<Longrightarrow> split_dash (ds @ CHR ''-'' # rest) = ds # split_dash rest"
  by (induction ds) auto

lemma split_dash_whole: "CHR ''-'' \<notin> set ds \<Longrightarrow> split_dash ds = [ds]"
  by (induction ds) auto

lemma split_dash_show_int:
  "\<exists>x rest y. split_dash (show_int c) = x # rest \<and> js_Number x = Some y"
  using split_dash_whole [OF dash_not_digit]
  by (auto simp: show_int_def js_Number_empty js_Number_show_nat)

lemma idToGridCell_gridCellToId: "\<exists>a b. idToGridCell (gridCellToId r c) = (Some a, Some b)"
proof -
  obtain x rest y where x: "split_dash (show_int c) = x # rest" "js_Number x = Some y"
    using split_dash_show_int by blast
  show ?thesis
  proof (cases "r < 0")
    case True
    have "split_dash (gridCellToId r c) = [] # show_nat (nat (- r)) # split_dash (show_int c)"
      using True split_dash_prefix [OF dash_not_digit]
      by (simp add: gridCellToId_def show_int_def)
    then show ?thesis
      using js_Number_show_nat [of "nat (- r)"]
      by (auto simp: idToGridCell_def js_Number_empty x split: list.splits)
  next
    case False
    have "split_dash (gridCellToId r c) = show_nat (nat r) # split_dash (show_int c)"
      using False split_dash_prefix [OF dash_not_digit]
      by (simp add: gridCellToId_def show_int_def)
    then show ?thesis
      using js_Number_show_nat [of "nat r"] x
      by (auto simp: idToGridCell_def split: list.splits)
  qed
qed

lemma manhattanDistance_gridCellToId:
  "manhattanDistance (gridCellToId r c) (gridCellToId r' c') (Grid g) \<noteq> None"
  using idToGridCell_gridCellToId [of r c] idToGridCell_gridCellToId [of r' c']
  by auto

text \<open>
  For non-negative coordinates the decoding gives the coordinates back, so that the
  heuristic of two such identifiers is the Manhattan distance of the coordinates. An
  identifier without a dash has no second piece, and the heuristic is \<^verbatim>\<open>NaN\<close>.
  \<open>safeCoordinate\<close> bounds a coordinate so that the numbers of JavaScript hold it, and
  the distances of two such coordinates and their sums, exactly.
\<close>

definition safeCoordinate :: "int \<Rightarrow> bool" where
  "safeCoordinate n = (0 \<le> n \<and> n < 2 ^ 52)"

lemma digit_val_nth: "k < 10 \<Longrightarrow> digit_val (digit_chars ! k) = Some k"
proof -
  have "\<forall>k \<in> set [0..<10]. digit_val (digit_chars ! k) = Some k"
    by code_simp
  then show "k < 10 \<Longrightarrow> digit_val (digit_chars ! k) = Some k"
    by simp
qed

lemma digits_value_snoc:
  "digits_value acc (xs @ [d]) =
     (case digits_value acc xs of None \<Rightarrow> None
      | Some v \<Rightarrow> (case digit_val d of None \<Rightarrow> None | Some k \<Rightarrow> Some (10 * v + k)))"
  by (induction xs arbitrary: acc) (auto split: option.splits)

lemma digits_value_show_nat: "digits_value 0 (show_nat n) = Some n"
proof (induction n rule: show_nat.induct)
  case (1 n)
  show ?case
  proof (cases "n < 10")
    case True
    then show ?thesis
      by (subst show_nat.simps) (simp add: digit_val_nth)
  next
    case False
    have "n mod 10 < 10" by simp
    from digit_val_nth [OF this] False 1 show ?thesis
      by (subst show_nat.simps) (simp add: digits_value_snoc)
  qed
qed

lemma js_Number_show_nat_value: "js_Number (show_nat n) = Some (int n)"
  unfolding js_Number_def by (simp add: digits_value_show_nat)

lemma show_int_nonneg: "0 \<le> i \<Longrightarrow> show_int i = show_nat (nat i)"
  by (simp add: show_int_def)

lemma idToGridCell_roundtrip:
  assumes "0 \<le> r" "0 \<le> c"
  shows "idToGridCell (gridCellToId r c) = (Some r, Some c)"
proof -
  have 1: "gridCellToId r c = show_nat (nat r) @ CHR ''-'' # show_nat (nat c)"
    unfolding gridCellToId_def show_int_nonneg [OF assms(1)] show_int_nonneg [OF assms(2)]
    by simp
  have 2: "split_dash (gridCellToId r c) = show_nat (nat r) # split_dash (show_nat (nat c))"
    unfolding 1 by (rule split_dash_prefix [OF dash_not_digit])
  have 3: "split_dash (show_nat (nat c)) = [show_nat (nat c)]"
    by (rule split_dash_whole [OF dash_not_digit])
  have "idToGridCell (gridCellToId r c) = (Some (int (nat r)), Some (int (nat c)))"
    unfolding idToGridCell_def 2 3 by (simp add: js_Number_show_nat_value)
  then show ?thesis using assms by simp
qed

lemma idToGridCell_no_dash: "CHR ''-'' \<notin> set a \<Longrightarrow> snd (idToGridCell a) = None"
  unfolding idToGridCell_def by (simp add: split_dash_whole)

lemma manhattanDistance_grid:
  "idToGridCell a = (ra, ca) \<Longrightarrow> idToGridCell b = (rb, cb) \<Longrightarrow>
     manhattanDistance a b (Grid g) =
       (case (ra, ca, rb, cb) of
          (Some r1, Some c1, Some r2, Some c2) \<Rightarrow> Some (of_int (\<bar>r1 - r2\<bar> + \<bar>c1 - c2\<bar>))
        | _ \<Rightarrow> None)"
  by (simp split: option.splits)

lemma manhattanDistance_roundtrip:
  assumes "0 \<le> r1" "0 \<le> c1" "0 \<le> r2" "0 \<le> c2"
  shows "manhattanDistance (gridCellToId r1 c1) (gridCellToId r2 c2) (Grid g)
           = Some (of_int (\<bar>r1 - r2\<bar> + \<bar>c1 - c2\<bar>))"
  unfolding manhattanDistance_grid [OF idToGridCell_roundtrip [OF assms(1,2)]
      idToGridCell_roundtrip [OF assms(3,4)]]
  by simp

lemma manhattanDistance_no_dash:
  assumes "CHR ''-'' \<notin> set a \<or> CHR ''-'' \<notin> set b"
  shows "manhattanDistance a b (Grid g) = None"
proof -
  obtain ra ca rb cb where ab: "idToGridCell a = (ra, ca)" "idToGridCell b = (rb, cb)"
    by (metis surj_pair)
  from assms idToGridCell_no_dash [of a] idToGridCell_no_dash [of b] ab
  have "ca = None \<or> cb = None" by auto
  then show ?thesis
    unfolding manhattanDistance_grid [OF ab] by (auto split: option.splits)
qed

lemma manhattanDistance_nonneg: "manhattanDistance a b p = Some h \<Longrightarrow> 0 \<le> h"
proof (cases p)
  case (Grid g)
  assume h: "manhattanDistance a b p = Some h"
  obtain ra ca rb cb where ab: "idToGridCell a = (ra, ca)" "idToGridCell b = (rb, cb)"
    by (metis surj_pair)
  from h show ?thesis
    unfolding Grid manhattanDistance_grid [OF ab] by (auto split: option.splits)
next
  case (Graph g)
  assume h: "manhattanDistance a b p = Some h"
  have "0 \<le> euclidean dx dy" for dx dy
    by (simp add: euclidean_def)
  moreover from h Graph have "h = 0 \<or> (\<exists>dx dy. euclidean dx dy = h * 50)"
    by (auto split: option.splits)
  ultimately have "h = 0 \<or> 0 \<le> h * 50" by metis
  then show ?thesis by auto
qed

lemma manhattanDistance_no_node:
  assumes "a \<notin> node_id ` set (nodes g) \<or> b \<notin> node_id ` set (nodes g)"
  shows "manhattanDistance a b (Graph g) = Some 0"
proof -
  from assms
  have "find (\<lambda>n. node_id n = a) (nodes g) = None \<or> find (\<lambda>n. node_id n = b) (nodes g) = None"
    by (auto simp: find_None_iff)
  then show ?thesis
    by (auto split: option.splits)
qed

section \<open>Search steps and results\<close>

record search_step =
  stepNumber :: nat
  currentNode :: string
  frontier :: "string list"
  visited :: "string list"
  parentMap :: "string \<rightharpoonup> string"
  gValues :: "string \<rightharpoonup> real"
  hValues :: "string \<rightharpoonup> real"
  fValues :: "string \<rightharpoonup> real"
  isComplete :: bool
  foundGoal :: bool
  path :: "string list option"

record search_result =
  algorithm :: string
  problem :: problem
  steps :: "search_step list"
  finalPath :: "string list option"
  pathCost :: "real option"
  nodesVisited :: nat
  memoryUsageKb :: int
  success :: bool

datatype error = UnknownAlgorithm string

definition createStep ::
  "nat \<Rightarrow> string \<Rightarrow> string list \<Rightarrow> string list \<Rightarrow> (string \<rightharpoonup> string) \<Rightarrow> (string \<rightharpoonup> real)
   \<Rightarrow> (string \<rightharpoonup> real) \<Rightarrow> (string \<rightharpoonup> real) \<Rightarrow> bool \<Rightarrow> bool \<Rightarrow> string list option \<Rightarrow> search_step"
where
  "createStep n current fr vis pm g h f done found pth =
     \<lparr>stepNumber = n, currentNode = current, frontier = fr, visited = vis, parentMap = pm,
      gValues = g, hValues = h, fValues = f, isComplete = done, foundGoal = found,
      path = pth\<rparr>"

text \<open>\<^verbatim>\<open>Math.round((count * per) / 1024)\<close>; \<^verbatim>\<open>Math.round\<close> rounds a half upwards.\<close>

definition memoryKb :: "nat \<Rightarrow> nat \<Rightarrow> int" where
  "memoryKb n per = \<lfloor>real (n * per) / 1024 + 1 / 2\<rfloor>"

text \<open>The two result literals every algorithm returns.\<close>

definition foundResult ::
  "string \<Rightarrow> problem \<Rightarrow> search_step list \<Rightarrow> string list option \<Rightarrow> real option \<Rightarrow> nat \<Rightarrow> nat
   \<Rightarrow> search_result"
where
  "foundResult alg p st pth cost n per =
     \<lparr>algorithm = alg, problem = p, steps = st, finalPath = pth, pathCost = cost,
      nodesVisited = n, memoryUsageKb = memoryKb n per, success = True\<rparr>"

definition notFoundResult ::
  "string \<Rightarrow> problem \<Rightarrow> search_step list \<Rightarrow> nat \<Rightarrow> nat \<Rightarrow> search_result"
where
  "notFoundResult alg p st n per =
     \<lparr>algorithm = alg, problem = p, steps = st, finalPath = None, pathCost = None,
      nodesVisited = n, memoryUsageKb = memoryKb n per, success = False\<rparr>"

text \<open>\<^verbatim>\<open>visited.add(x)\<close> on the insertion-ordered set.\<close>

definition setAdd :: "string \<Rightarrow> string list \<Rightarrow> string list" where
  "setAdd x vis = (if x \<in> set vis then vis else vis @ [x])"

subsection \<open>Objects read as maps\<close>

text \<open>
  \<^verbatim>\<open>parentMap\<close>, \<^verbatim>\<open>gValues\<close>, \<^verbatim>\<open>hValues\<close> and \<^verbatim>\<open>fValues\<close> are objects made by \<^verbatim>\<open>{}\<close> and keyed by
  node identifiers. Reading \<^verbatim>\<open>obj[k]\<close> gives the own entry of \<open>k\<close> if there is one, and
  otherwise the member of \<^verbatim>\<open>Object.prototype\<close> named \<open>k\<close> if there is one: a function, or
  the prototype itself for \<^verbatim>\<open>__proto__\<close>, neither \<^verbatim>\<open>undefined\<close> nor falsy. Writing
  \<^verbatim>\<open>obj[k] = v\<close> sets the own entry of \<open>k\<close>, except that writing a string or a number to
  \<^verbatim>\<open>__proto__\<close> changes nothing. \<open>readProperty\<close> and \<open>writeProperty\<close> say this.

  The loops below hold these objects as the maps of their own entries: a read is the
  lookup in the map, with \<open>None\<close> for \<^verbatim>\<open>undefined\<close>, and a write is the update of the map.
  By \<open>readProperty_plain\<close> and \<open>writeProperty_plain\<close> this is what the code does at every
  key that is not the name of a member of \<^verbatim>\<open>Object.prototype\<close>. The keys of a run are the
  start identifier and the identifiers the neighbor resolver returns; \<open>plainIds p\<close> says
  that none of them is such a name. It holds of every grid problem (\<open>grid_plainIds\<close>). On
  a graph without it the code can read an inherited member where the maps read nothing
  (a function as the parent of a node, or as its g-value), and what it does from there
  on is not described by the loops below: the statements about what a run returns, or
  whether it returns, assume \<open>plainIds\<close>.
\<close>

datatype 'a property = Absent | Own 'a | Inherited

definition objectPrototypeNames :: "string list" where
  "objectPrototypeNames =
     [''constructor'', ''hasOwnProperty'', ''isPrototypeOf'', ''propertyIsEnumerable'',
      ''toLocaleString'', ''toString'', ''valueOf'', ''__proto__'', ''__defineGetter__'',
      ''__defineSetter__'', ''__lookupGetter__'', ''__lookupSetter__'']"

definition readProperty :: "(string \<rightharpoonup> 'a) \<Rightarrow> string \<Rightarrow> 'a property" where
  "readProperty obj k =
     (case obj k of
        Some v \<Rightarrow> Own v
      | None \<Rightarrow> if k \<in> set objectPrototypeNames then Inherited else Absent)"

definition writeProperty :: "(string \<rightharpoonup> 'a) \<Rightarrow> string \<Rightarrow> 'a \<Rightarrow> (string \<rightharpoonup> 'a)" where
  "writeProperty obj k v = (if k = ''__proto__'' then obj else obj(k \<mapsto> v))"

definition plainIds :: "problem \<Rightarrow> bool" where
  "plainIds p = (\<forall>k \<in> insert (getStartId p) (allIds p). k \<notin> set objectPrototypeNames)"

lemma readProperty_plain:
  "k \<notin> set objectPrototypeNames \<Longrightarrow>
     readProperty obj k = (case obj k of Some v \<Rightarrow> Own v | None \<Rightarrow> Absent)"
  by (simp add: readProperty_def split: option.splits)

lemma writeProperty_plain:
  "k \<notin> set objectPrototypeNames \<Longrightarrow> writeProperty obj k v = obj(k \<mapsto> v)"
  by (auto simp: writeProperty_def objectPrototypeNames_def)

lemma dash_in_gridCellToId: "CHR ''-'' \<in> set (gridCellToId r c)"
  by (simp add: gridCellToId_def)

lemma no_dash_in_prototype_names: "\<forall>k \<in> set objectPrototypeNames. CHR ''-'' \<notin> set k"
  by (simp add: objectPrototypeNames_def)

lemma gridCellToId_plain: "gridCellToId r c \<notin> set objectPrototypeNames"
  using dash_in_gridCellToId [of r c] no_dash_in_prototype_names by blast

lemma grid_plainIds: "plainIds (Grid g)"
  by (auto simp: plainIds_def gridCellToId_plain)

subsection \<open>Path reconstruction\<close>

text \<open>
  The \<^verbatim>\<open>while\<close> loop of \<^verbatim>\<open>reconstructPath\<close> follows parent links while \<open>current\<close> is truthy
  (a non-empty string) and has a parent. On a cyclic parent map it does not return:
  the value \<open>None\<close>. \<^verbatim>\<open>parentMap[current] !== undefined\<close> is read as \<open>pm current \<noteq> None\<close>, the
  test of the own entries, which is the test of the code under \<open>plainIds\<close>.
\<close>

partial_function (option) reconstructPathLoop ::
  "(string \<rightharpoonup> string) \<Rightarrow> string \<Rightarrow> string list \<Rightarrow> (string \<times> string list) option"
where
  "reconstructPathLoop pm current pth =
     (if current \<noteq> [] \<and> pm current \<noteq> None
      then reconstructPathLoop pm (the (pm current)) (current # pth)
      else Some (current, pth))"

declare reconstructPathLoop.simps [code]

definition reconstructPath :: "(string \<rightharpoonup> string) \<Rightarrow> string \<Rightarrow> string list option" where
  "reconstructPath pm goalId =
     map_option (\<lambda>(current, pth). if current \<noteq> [] then current # pth else pth)
       (reconstructPathLoop pm goalId [])"

section \<open>Breadth-first search\<close>

text \<open>The \<^verbatim>\<open>for\<close> loop over the neighbors. \<^verbatim>\<open>parentMap[id] = current\<close> is the update of the map of
  own entries, which adds the entry for every key but \<^verbatim>\<open>__proto__\<close> (excluded by \<open>plainIds\<close>);
  the same holds of the writes in the neighbor loops of the other algorithms.\<close>

fun bfsExpand ::
  "(string \<times> real) list \<Rightarrow> string \<Rightarrow> string list \<Rightarrow> string list \<Rightarrow> (string \<rightharpoonup> string)
   \<Rightarrow> string list \<times> (string \<rightharpoonup> string)"
where
  "bfsExpand [] current vis queue pm = (queue, pm)"
| "bfsExpand ((nid, cost) # ns) current vis queue pm =
     (if nid \<notin> set vis \<and> nid \<notin> set queue
      then bfsExpand ns current vis (queue @ [nid]) (pm(nid \<mapsto> current))
      else bfsExpand ns current vis queue pm)"

function bfsLoop ::
  "problem \<Rightarrow> string \<Rightarrow> string list \<Rightarrow> string list \<Rightarrow> (string \<rightharpoonup> string) \<Rightarrow> search_step list
   \<Rightarrow> nat \<Rightarrow> search_result option"
where
  "bfsLoop p goalId [] vis pm st n = Some (notFoundResult ''bfs'' p st (length vis) 100)"
| "bfsLoop p goalId (current # queue) vis pm st n =
     (if current \<in> set vis then bfsLoop p goalId queue vis pm st n
      else
        let vis' = vis @ [current] in
        if current = goalId then
          map_option
            (\<lambda>pth. foundResult ''bfs'' p
               (st @ [createStep n current queue vis' pm Map.empty Map.empty Map.empty
                        True True (Some pth)])
               (Some pth) (Some (real_of_int (int (length pth) - 1))) (length vis') 100)
            (reconstructPath pm goalId)
        else
          let (queue', pm') = bfsExpand (getNeighbors p current) current vis' queue pm in
          bfsLoop p goalId queue' vis' pm'
            (st @ [createStep n current queue' vis' pm' Map.empty Map.empty Map.empty
                     False False None])
            (n + 1))"
  by pat_completeness auto

lemma finite_allIds: "finite (allIds p)"
  by (cases p) auto

lemma gridNeighborsLoop_ids:
  "(x, w) \<in> set (gridNeighborsLoop g r c ds acc) \<Longrightarrow>
     (x, w) \<in> set acc \<or> x \<in> (\<lambda>cell. gridCellToId (row cell) (col cell)) ` set (cells g)"
proof (induction g r c ds acc rule: gridNeighborsLoop.induct)
  case (1 p r c neighbors)
  then show ?case by simp
next
  case (2 p r c dr dc ds neighbors)
  show ?case
  proof (cases "find (\<lambda>cell. row cell = r + dr \<and> col cell = c + dc) (cells p)")
    case None
    with 2 show ?thesis by (simp add: Let_def split: if_splits)
  next
    case (Some cell)
    then have "cell \<in> set (cells p)" "row cell = r + dr" "col cell = c + dc"
      by (auto simp: find_Some_iff)
    then have "gridCellToId (r + dr) (c + dc)
                 \<in> (\<lambda>cell. gridCellToId (row cell) (col cell)) ` set (cells p)"
      by force
    with 2 Some show ?thesis
      by (fastforce simp: Let_def split: if_splits)
  qed
qed

lemma graphNeighborsLoop_ids:
  "(x, w) \<in> set (graphNeighborsLoop g nodeId es acc) \<Longrightarrow>
     (x, w) \<in> set acc \<or> x \<in> edge_from ` set es \<union> edge_to ` set es"
proof (induction g nodeId es acc rule: graphNeighborsLoop.induct)
  case (1 p nodeId neighbors)
  then show ?case by simp
next
  case (2 p nodeId e es neighbors)
  then show ?case by (fastforce simp: Let_def split: if_splits)
qed

lemma neighbor_in_allIds: "(nid, cost) \<in> set (getNeighbors p nodeId) \<Longrightarrow> nid \<in> allIds p"
proof (cases p)
  case (Grid g)
  assume "(nid, cost) \<in> set (getNeighbors p nodeId)"
  then show ?thesis
    using gridNeighborsLoop_ids [of nid cost g _ _ "directions (allowDiagonal g)" "[]"]
    by (auto simp: Grid getGridNeighbors_def split: prod.splits option.splits)
next
  case (Graph g)
  assume "(nid, cost) \<in> set (getNeighbors p nodeId)"
  then show ?thesis
    using graphNeighborsLoop_ids [of nid cost g nodeId "edges g" "[]"]
    by (auto simp: Graph getGraphNeighbors_def)
qed

lemma getNeighbors_allIds: "fst ` set (getNeighbors p nodeId) \<subseteq> allIds p"
  using neighbor_in_allIds by fastforce

text \<open>The order in which the loops of the engine descend: fewer unvisited identifiers, or as
  many and a shorter frontier.\<close>

lemma lex_card_less:
  "finite B \<Longrightarrow> A \<subset> B \<Longrightarrow> ((card A, m), (card B, n)) \<in> less_than <*lex*> less_than"
  by (simp add: psubset_card_mono)

lemma lex_card_le:
  "finite B \<Longrightarrow> A \<subseteq> B \<Longrightarrow> m < n \<Longrightarrow> ((card A, m), (card B, n)) \<in> less_than <*lex*> less_than"
  using card_mono [of B A] by (auto simp: le_less)

lemma bfsExpand_queue:
  "x \<in> set (fst (bfsExpand ns current vis queue pm)) \<Longrightarrow> x \<in> set queue \<or> x \<in> fst ` set ns"
  by (induction ns current vis queue pm rule: bfsExpand.induct) (auto split: if_splits)

lemma wf_lex_measure: "wf (inv_image (less_than <*lex*> less_than) f)"
  by (intro wf_inv_image wf_lex_prod wf_less_than)

termination bfsLoop
proof (relation "inv_image (less_than <*lex*> less_than)
         (\<lambda>(p, goalId, queue, vis, pm, st, n).
            (card ((allIds p \<union> set queue) - set vis), length queue))", goal_cases)
  case 1
  show ?case by (rule wf_lex_measure)
next
  case (2 p goalId current queue vis pm st n)
  have "(allIds p \<union> set queue) - set vis \<subseteq> (allIds p \<union> set (current # queue)) - set vis"
    by auto
  from lex_card_le [OF _ this, of "length queue" "length (current # queue)"]
  show ?case
    by (simp add: finite_allIds del: set_simps)
next
  case (3 p goalId current queue vis pm st n vis' x queue' pm')
  have "set queue' \<subseteq> set queue \<union> allIds p"
  proof
    fix y assume "y \<in> set queue'"
    then have "y \<in> set (fst (bfsExpand (getNeighbors p current) current vis' queue pm))"
      using 3 by (metis fst_conv)
    from bfsExpand_queue [OF this] show "y \<in> set queue \<union> allIds p"
      using getNeighbors_allIds [of p current] by auto
  qed
  moreover have "current \<notin> set vis" using 3 by simp
  ultimately have "(allIds p \<union> set queue') - set vis' \<subset> (allIds p \<union> set (current # queue)) - set vis"
    using 3 by auto
  from lex_card_less [OF _ this, of "length queue'" "length (current # queue)"]
  show ?case
    using 3 by (simp add: finite_allIds del: set_simps)
qed


text \<open>The two ways a frontier loop descends, on sets.\<close>

lemma visit_descends:
  assumes "finite U" "finite F" "c \<notin> V" "c \<in> F" "F' \<subseteq> F \<union> U"
  shows "((card ((U \<union> F') - insert c V), m), (card ((U \<union> F) - V), n))
           \<in> less_than <*lex*> less_than"
proof -
  have "(U \<union> F') - insert c V \<subset> (U \<union> F) - V"
    using assms by auto
  moreover have "finite ((U \<union> F) - V)"
    using assms by simp
  ultimately show ?thesis
    by (rule lex_card_less [rotated])
qed

lemma skip_descends:
  assumes "finite U" "finite F" "F' \<subseteq> F" "m < n"
  shows "((card ((U \<union> F') - V), m), (card ((U \<union> F) - V), n)) \<in> less_than <*lex*> less_than"
proof -
  have "(U \<union> F') - V \<subseteq> (U \<union> F) - V"
    using assms by auto
  moreover have "finite ((U \<union> F) - V)"
    using assms by simp
  ultimately show ?thesis
    using assms(4) by (intro lex_card_le)
qed

section \<open>Depth-first search\<close>

text \<open>\<^verbatim>\<open>!parentMap[id]\<close>: no own entry, or the empty string. An inherited member is truthy;
  under \<open>plainIds\<close> no identifier names one.\<close>

definition falsyEntry :: "string option \<Rightarrow> bool" where
  "falsyEntry e = (case e of None \<Rightarrow> True | Some v \<Rightarrow> v = [])"

text \<open>The stack is the array itself: \<^verbatim>\<open>push\<close> appends and \<^verbatim>\<open>pop\<close> takes the last entry.
  \<open>dfsExpand\<close> is run on the reversed neighbor list.\<close>

fun dfsExpand ::
  "(string \<times> real) list \<Rightarrow> string \<Rightarrow> string list \<Rightarrow> string list \<Rightarrow> (string \<rightharpoonup> string)
   \<Rightarrow> string list \<times> (string \<rightharpoonup> string)"
where
  "dfsExpand [] current vis stack pm = (stack, pm)"
| "dfsExpand ((nid, cost) # ns) current vis stack pm =
     (if nid \<notin> set vis
      then dfsExpand ns current vis (stack @ [nid])
             (if falsyEntry (pm nid) then pm(nid \<mapsto> current) else pm)
      else dfsExpand ns current vis stack pm)"

function dfsLoop ::
  "problem \<Rightarrow> string \<Rightarrow> string list \<Rightarrow> string list \<Rightarrow> (string \<rightharpoonup> string) \<Rightarrow> search_step list
   \<Rightarrow> nat \<Rightarrow> search_result option"
where
  "dfsLoop p goalId stack vis pm st n =
     (if stack = [] then Some (notFoundResult ''dfs'' p st (length vis) 100)
      else
        let current = last stack; stack1 = butlast stack in
        if current \<in> set vis then dfsLoop p goalId stack1 vis pm st n
        else
          let vis' = vis @ [current] in
          if current = goalId then
            map_option
              (\<lambda>pth. foundResult ''dfs'' p
                 (st @ [createStep n current stack1 vis' pm Map.empty Map.empty Map.empty
                          True True (Some pth)])
                 (Some pth) (Some (real_of_int (int (length pth) - 1))) (length vis') 100)
              (reconstructPath pm goalId)
          else
            let (stack', pm') = dfsExpand (rev (getNeighbors p current)) current vis' stack1 pm in
            dfsLoop p goalId stack' vis' pm'
              (st @ [createStep n current stack' vis' pm' Map.empty Map.empty Map.empty
                       False False None])
              (n + 1))"
  by pat_completeness auto

lemma dfsExpand_stack:
  "x \<in> set (fst (dfsExpand ns current vis stack pm)) \<Longrightarrow> x \<in> set stack \<or> x \<in> fst ` set ns"
  by (induction ns current vis stack pm rule: dfsExpand.induct) (auto split: if_splits)

termination dfsLoop
proof (relation "inv_image (less_than <*lex*> less_than)
         (\<lambda>(p, goalId, stack, vis, pm, st, n).
            (card ((allIds p \<union> set stack) - set vis), length stack))", goal_cases)
  case 1
  show ?case by (rule wf_lex_measure)
next
  case (2 p goalId stack vis pm st n current stack1)
  have "set stack1 \<subseteq> set stack" "length stack1 < length stack"
    using 2 by (auto dest: in_set_butlastD)
  from skip_descends [OF finite_allIds _ this, of p "set vis"]
  show ?case by simp
next
  case (3 p goalId stack vis pm st n current stack1 vis' x stack' pm')
  have sub: "set stack1 \<subseteq> set stack"
    using 3 by (auto dest: in_set_butlastD)
  have "set stack' \<subseteq> set stack \<union> allIds p"
  proof
    fix y assume "y \<in> set stack'"
    then have "y \<in> set (fst (dfsExpand (rev (getNeighbors p current)) current vis' stack1 pm))"
      using 3 by (metis fst_conv)
    from dfsExpand_stack [OF this] show "y \<in> set stack \<union> allIds p"
      using getNeighbors_allIds [of p current] sub by auto
  qed
  moreover have "current \<notin> set vis" "current \<in> set stack"
    using 3 by auto
  ultimately show ?case
    using visit_descends [OF finite_allIds, of "set stack" current "set vis" "set stack'" p] 3
    by simp
qed

section \<open>Priority queue\<close>

text \<open>
  \<^verbatim>\<open>enqueue\<close> pushes the entry and sorts the array by priority; the sort of an array is
  stable, as \<open>sort_key\<close> is. \<^verbatim>\<open>dequeue\<close> takes the first entry and \<^verbatim>\<open>toArray\<close> lists the
  items.
\<close>

definition enqueue :: "string \<Rightarrow> real \<Rightarrow> (string \<times> real) list \<Rightarrow> (string \<times> real) list" where
  "enqueue item priority items = sort_key snd (items @ [(item, priority)])"

definition toArray :: "(string \<times> real) list \<Rightarrow> string list" where
  "toArray items = map fst items"

text \<open>
  A number read from a value map. \<^verbatim>\<open>gValues[current] || 0\<close> reads a missing entry as 0.
  Where the source reads \<^verbatim>\<open>gValues[current]\<close> or \<^verbatim>\<open>hValues[current]\<close> with no default, the
  entry is there (the node was given one when it entered the frontier).
\<close>

definition numOf :: "real option \<Rightarrow> real" where
  "numOf v = (case v of None \<Rightarrow> 0 | Some r \<Rightarrow> r)"

lemma set_enqueue [simp]: "set (enqueue item priority items) = insert (item, priority) (set items)"
  by (simp add: enqueue_def)

section \<open>Uniform-cost search\<close>

text \<open>\<^verbatim>\<open>gValues[id] === undefined\<close> is read as \<open>g nid = None\<close>, the test of the own entries, which
  is the test of the code under \<open>plainIds\<close>.\<close>

fun ucsExpand ::
  "(string \<times> real) list \<Rightarrow> string \<Rightarrow> string list \<Rightarrow> (string \<times> real) list \<Rightarrow> (string \<rightharpoonup> string)
   \<Rightarrow> (string \<rightharpoonup> real) \<Rightarrow> (string \<times> real) list \<times> (string \<rightharpoonup> string) \<times> (string \<rightharpoonup> real)"
where
  "ucsExpand [] current vis pq pm g = (pq, pm, g)"
| "ucsExpand ((nid, cost) # ns) current vis pq pm g =
     (if nid \<notin> set vis then
        let newG = numOf (g current) + cost in
        if g nid = None \<or> newG < numOf (g nid)
        then ucsExpand ns current vis (enqueue nid newG pq) (pm(nid \<mapsto> current)) (g(nid \<mapsto> newG))
        else ucsExpand ns current vis pq pm g
      else ucsExpand ns current vis pq pm g)"

function ucsLoop ::
  "problem \<Rightarrow> string \<Rightarrow> (string \<times> real) list \<Rightarrow> string list \<Rightarrow> (string \<rightharpoonup> string)
   \<Rightarrow> (string \<rightharpoonup> real) \<Rightarrow> search_step list \<Rightarrow> nat \<Rightarrow> search_result option"
where
  "ucsLoop p goalId [] vis pm g st n = Some (notFoundResult ''ucs'' p st (length vis) 100)"
| "ucsLoop p goalId ((current, pr) # pq) vis pm g st n =
     (if current \<in> set vis then ucsLoop p goalId pq vis pm g st n
      else
        let vis' = vis @ [current] in
        if current = goalId then
          map_option
            (\<lambda>pth. foundResult ''ucs'' p
               (st @ [createStep n current (toArray pq) vis' pm g Map.empty Map.empty
                        True True (Some pth)])
               (Some pth) (g goalId) (length vis') 100)
            (reconstructPath pm goalId)
        else
          let (pq', pm', g') = ucsExpand (getNeighbors p current) current vis' pq pm g in
          ucsLoop p goalId pq' vis' pm' g'
            (st @ [createStep n current (toArray pq') vis' pm' g' Map.empty Map.empty
                     False False None])
            (n + 1))"
  by pat_completeness auto

lemma ucsExpand_pq:
  "x \<in> fst ` set (fst (ucsExpand ns current vis pq pm g)) \<Longrightarrow>
     x \<in> fst ` set pq \<or> x \<in> fst ` set ns"
  by (induction ns current vis pq pm g rule: ucsExpand.induct)
    (auto simp: Let_def split: if_splits)

termination ucsLoop
proof (relation "inv_image (less_than <*lex*> less_than)
         (\<lambda>(p, goalId, pq, vis, pm, g, st, n).
            (card ((allIds p \<union> fst ` set pq) - set vis), length pq))", goal_cases)
  case 1
  show ?case by (rule wf_lex_measure)
next
  case (2 p goalId current pr pq vis pm g st n)
  have "fst ` set pq \<subseteq> fst ` set ((current, pr) # pq)" "length pq < length ((current, pr) # pq)"
    by auto
  from skip_descends [OF finite_allIds _ this, of p "set vis"]
  show ?case by simp
next
  case (3 p goalId current pr pq vis pm g st n vis' x pq' y pm' g')
  have "fst ` set pq' \<subseteq> fst ` set ((current, pr) # pq) \<union> allIds p"
  proof
    fix z assume "z \<in> fst ` set pq'"
    then have "z \<in> fst ` set (fst (ucsExpand (getNeighbors p current) current vis' pq pm g))"
      using 3 by (metis fst_conv)
    from ucsExpand_pq [OF this] show "z \<in> fst ` set ((current, pr) # pq) \<union> allIds p"
      using getNeighbors_allIds [of p current] by auto
  qed
  moreover have "current \<notin> set vis" "current \<in> fst ` set ((current, pr) # pq)"
    using 3 by auto
  ultimately show ?case
    using visit_descends [OF finite_allIds, of "fst ` set ((current, pr) # pq)" current
        "set vis" "fst ` set pq'" p] 3
    by simp
qed


section \<open>Greedy best-first search\<close>

fun greedyExpand ::
  "problem \<Rightarrow> string \<Rightarrow> (string \<times> real) list \<Rightarrow> string \<Rightarrow> string list \<Rightarrow> (string \<times> real) list
   \<Rightarrow> (string \<rightharpoonup> string) \<Rightarrow> (string \<rightharpoonup> real) \<Rightarrow> (string \<rightharpoonup> real)
   \<Rightarrow> (string \<times> real) list \<times> (string \<rightharpoonup> string) \<times> (string \<rightharpoonup> real) \<times> (string \<rightharpoonup> real)"
where
  "greedyExpand p goalId [] current vis pq pm g h = (pq, pm, g, h)"
| "greedyExpand p goalId ((nid, cost) # ns) current vis pq pm g h =
     (if nid \<notin> set vis then
        let hVal = heuristic p goalId nid in
        greedyExpand p goalId ns current vis (enqueue nid hVal pq) (pm(nid \<mapsto> current))
          (g(nid \<mapsto> numOf (g current) + cost)) (h(nid \<mapsto> hVal))
      else greedyExpand p goalId ns current vis pq pm g h)"

text \<open>The cost of the path, summed over the first resolver entry of each consecutive pair.\<close>

fun sumPathCost :: "problem \<Rightarrow> string list \<Rightarrow> real \<Rightarrow> real" where
  "sumPathCost p (a # b # rest) acc =
     (case find (\<lambda>(nid, cost). nid = b) (getNeighbors p a) of
        None \<Rightarrow> sumPathCost p (b # rest) acc
      | Some (nid, cost) \<Rightarrow> sumPathCost p (b # rest) (acc + cost))"
| "sumPathCost p [a] acc = acc"
| "sumPathCost p [] acc = acc"

function greedyLoop ::
  "problem \<Rightarrow> string \<Rightarrow> (string \<times> real) list \<Rightarrow> string list \<Rightarrow> (string \<rightharpoonup> string)
   \<Rightarrow> (string \<rightharpoonup> real) \<Rightarrow> (string \<rightharpoonup> real) \<Rightarrow> search_step list \<Rightarrow> nat \<Rightarrow> search_result option"
where
  "greedyLoop p goalId [] vis pm g h st n =
     Some (notFoundResult ''greedy'' p st (length vis) 100)"
| "greedyLoop p goalId ((current, pr) # pq) vis pm g h st n =
     (if current \<in> set vis then greedyLoop p goalId pq vis pm g h st n
      else
        let vis' = vis @ [current] in
        if current = goalId then
          map_option
            (\<lambda>pth. foundResult ''greedy'' p
               (st @ [createStep n current (toArray pq) vis' pm g h h True True (Some pth)])
               (Some pth) (Some (sumPathCost p pth 0)) (length vis') 100)
            (reconstructPath pm goalId)
        else
          let (pq', pm', g', h') =
                greedyExpand p goalId (getNeighbors p current) current vis' pq pm g h in
          greedyLoop p goalId pq' vis' pm' g' h'
            (st @ [createStep n current (toArray pq') vis' pm' g' h' h' False False None])
            (n + 1))"
  by pat_completeness auto

lemma greedyExpand_pq:
  "x \<in> fst ` set (fst (greedyExpand p goalId ns current vis pq pm g h)) \<Longrightarrow>
     x \<in> fst ` set pq \<or> x \<in> fst ` set ns"
  by (induction p goalId ns current vis pq pm g h rule: greedyExpand.induct)
    (auto simp: Let_def split: if_splits)

termination greedyLoop
proof (relation "inv_image (less_than <*lex*> less_than)
         (\<lambda>(p, goalId, pq, vis, pm, g, h, st, n).
            (card ((allIds p \<union> fst ` set pq) - set vis), length pq))", goal_cases)
  case 1
  show ?case by (rule wf_lex_measure)
next
  case (2 p goalId current pr pq vis pm g h st n)
  have "fst ` set pq \<subseteq> fst ` set ((current, pr) # pq)" "length pq < length ((current, pr) # pq)"
    by auto
  from skip_descends [OF finite_allIds _ this, of p "set vis"]
  show ?case by simp
next
  case (3 p goalId current pr pq vis pm g h st n vis' x pq' y pm' z g' h')
  have "fst ` set pq' \<subseteq> fst ` set ((current, pr) # pq) \<union> allIds p"
  proof
    fix w assume "w \<in> fst ` set pq'"
    then have "w \<in> fst ` set (fst (greedyExpand p goalId (getNeighbors p current) current vis'
                                      pq pm g h))"
      using 3 by (metis fst_conv)
    from greedyExpand_pq [OF this] show "w \<in> fst ` set ((current, pr) # pq) \<union> allIds p"
      using getNeighbors_allIds [of p current] by auto
  qed
  moreover have "current \<notin> set vis" "current \<in> fst ` set ((current, pr) # pq)"
    using 3 by auto
  ultimately show ?case
    using visit_descends [OF finite_allIds, of "fst ` set ((current, pr) # pq)" current
        "set vis" "fst ` set pq'" p] 3
    by simp
qed

section \<open>A* search\<close>

text \<open>As in uniform-cost search, \<^verbatim>\<open>gValues[id] === undefined\<close> is \<open>g nid = None\<close> on the own
  entries.\<close>

fun astarExpand ::
  "problem \<Rightarrow> string \<Rightarrow> (string \<times> real) list \<Rightarrow> string \<Rightarrow> string list \<Rightarrow> (string \<times> real) list
   \<Rightarrow> (string \<rightharpoonup> string) \<Rightarrow> (string \<rightharpoonup> real) \<Rightarrow> (string \<rightharpoonup> real) \<Rightarrow> (string \<rightharpoonup> real)
   \<Rightarrow> (string \<times> real) list \<times> (string \<rightharpoonup> string) \<times> (string \<rightharpoonup> real) \<times> (string \<rightharpoonup> real)
      \<times> (string \<rightharpoonup> real)"
where
  "astarExpand p goalId [] current vis pq pm g h f = (pq, pm, g, h, f)"
| "astarExpand p goalId ((nid, cost) # ns) current vis pq pm g h f =
     (if nid \<notin> set vis then
        let newG = numOf (g current) + cost in
        if g nid = None \<or> newG < numOf (g nid) then
          let hVal = heuristic p goalId nid in
          astarExpand p goalId ns current vis (enqueue nid (newG + hVal) pq)
            (pm(nid \<mapsto> current)) (g(nid \<mapsto> newG)) (h(nid \<mapsto> hVal)) (f(nid \<mapsto> newG + hVal))
        else astarExpand p goalId ns current vis pq pm g h f
      else astarExpand p goalId ns current vis pq pm g h f)"

function astarLoop ::
  "problem \<Rightarrow> string \<Rightarrow> (string \<times> real) list \<Rightarrow> string list \<Rightarrow> (string \<rightharpoonup> string)
   \<Rightarrow> (string \<rightharpoonup> real) \<Rightarrow> (string \<rightharpoonup> real) \<Rightarrow> (string \<rightharpoonup> real) \<Rightarrow> search_step list \<Rightarrow> nat
   \<Rightarrow> search_result option"
where
  "astarLoop p goalId [] vis pm g h f st n =
     Some (notFoundResult ''astar'' p st (length vis) 100)"
| "astarLoop p goalId ((current, pr) # pq) vis pm g h f st n =
     (if current \<in> set vis then astarLoop p goalId pq vis pm g h f st n
      else
        let vis' = vis @ [current] in
        if current = goalId then
          map_option
            (\<lambda>pth. foundResult ''astar'' p
               (st @ [createStep n current (toArray pq) vis' pm g h f True True (Some pth)])
               (Some pth) (g goalId) (length vis') 100)
            (reconstructPath pm goalId)
        else
          let (pq', pm', g', h', f') =
                astarExpand p goalId (getNeighbors p current) current vis' pq pm g h f in
          astarLoop p goalId pq' vis' pm' g' h' f'
            (st @ [createStep n current (toArray pq') vis' pm' g' h' f' False False None])
            (n + 1))"
  by pat_completeness auto

lemma astarExpand_pq:
  "x \<in> fst ` set (fst (astarExpand p goalId ns current vis pq pm g h f)) \<Longrightarrow>
     x \<in> fst ` set pq \<or> x \<in> fst ` set ns"
  by (induction p goalId ns current vis pq pm g h f rule: astarExpand.induct)
    (auto simp: Let_def split: if_splits)

termination astarLoop
proof (relation "inv_image (less_than <*lex*> less_than)
         (\<lambda>(p, goalId, pq, vis, pm, g, h, f, st, n).
            (card ((allIds p \<union> fst ` set pq) - set vis), length pq))", goal_cases)
  case 1
  show ?case by (rule wf_lex_measure)
next
  case (2 p goalId current pr pq vis pm g h f st n)
  have "fst ` set pq \<subseteq> fst ` set ((current, pr) # pq)" "length pq < length ((current, pr) # pq)"
    by auto
  from skip_descends [OF finite_allIds _ this, of p "set vis"]
  show ?case by simp
next
  case (3 p goalId current pr pq vis pm g h f st n vis' x pq' y pm' z g' w h' f')
  have "fst ` set pq' \<subseteq> fst ` set ((current, pr) # pq) \<union> allIds p"
  proof
    fix v assume "v \<in> fst ` set pq'"
    then have "v \<in> fst ` set (fst (astarExpand p goalId (getNeighbors p current) current vis'
                                      pq pm g h f))"
      using 3 by (metis fst_conv)
    from astarExpand_pq [OF this] show "v \<in> fst ` set ((current, pr) # pq) \<union> allIds p"
      using getNeighbors_allIds [of p current] by auto
  qed
  moreover have "current \<notin> set vis" "current \<in> fst ` set ((current, pr) # pq)"
    using 3 by auto
  ultimately show ?case
    using visit_descends [OF finite_allIds, of "fst ` set ((current, pr) # pq)" current
        "set vis" "fst ` set pq'" p] 3
    by simp
qed


section \<open>Hill climbing\<close>

text \<open>The scan of the neighbors of \<open>current\<close>: the first unvisited neighbor of strictly lowest
  heuristic value below \<open>bestH\<close> becomes \<open>bestNeighbor\<close>.\<close>

fun hillScan ::
  "problem \<Rightarrow> string \<Rightarrow> string \<Rightarrow> (string \<times> real) list \<Rightarrow> string list
   \<Rightarrow> (string \<rightharpoonup> real) \<Rightarrow> (string \<rightharpoonup> real) \<Rightarrow> string option \<Rightarrow> real
   \<Rightarrow> string option \<times> real \<times> (string \<rightharpoonup> real) \<times> (string \<rightharpoonup> real)"
where
  "hillScan p goalId current [] vis h g bestNeighbor bestH = (bestNeighbor, bestH, h, g)"
| "hillScan p goalId current ((nid, cost) # ns) vis h g bestNeighbor bestH =
     (if nid \<notin> set vis then
        let hv = heuristic p goalId nid;
            h' = h(nid \<mapsto> hv);
            g' = g(nid \<mapsto> numOf (g current) + cost)
        in if hv < bestH
           then hillScan p goalId current ns vis h' g' (Some nid) hv
           else hillScan p goalId current ns vis h' g' bestNeighbor bestH
      else hillScan p goalId current ns vis h g bestNeighbor bestH)"

text \<open>\<^verbatim>\<open>!bestNeighbor\<close> holds of \<^verbatim>\<open>null\<close> and of the empty string.\<close>

definition noNeighbor :: "string option \<Rightarrow> bool" where
  "noNeighbor b = (case b of None \<Rightarrow> True | Some v \<Rightarrow> v = [])"

function hillLoop ::
  "problem \<Rightarrow> string \<Rightarrow> string \<Rightarrow> string list \<Rightarrow> (string \<rightharpoonup> string) \<Rightarrow> (string \<rightharpoonup> real)
   \<Rightarrow> (string \<rightharpoonup> real) \<Rightarrow> search_step list \<Rightarrow> nat \<Rightarrow> search_result option"
where
  "hillLoop p goalId current vis pm h g st n =
     (if current \<noteq> goalId then
        let (bestNeighbor, bestH, h', g') =
              hillScan p goalId current (getNeighbors p current) vis h g None (numOf (h current))
        in
        if noNeighbor bestNeighbor then
          Some (notFoundResult ''hillClimbing'' p
                  (st @ [createStep n current [] vis pm g' h' h' True False None])
                  (length vis) 100)
        else
          let b = the bestNeighbor;
              pm' = pm(b \<mapsto> current);
              vis' = setAdd b vis
          in hillLoop p goalId b vis' pm' h' g'
               (st @ [createStep n b [] vis' pm' g' h' h' False (b = goalId) None])
               (n + 1)
      else
        map_option
          (\<lambda>pth. foundResult ''hillClimbing'' p st (Some pth) (g goalId) (length vis) 100)
          (reconstructPath pm goalId))"
  by pat_completeness auto

lemma hillScan_best:
  "fst (hillScan p goalId current ns vis h g best bestH) = Some b \<Longrightarrow>
     best = Some b \<or> (b \<in> fst ` set ns \<and> b \<notin> set vis)"
  by (induction p goalId current ns vis h g best bestH rule: hillScan.induct)
    (auto simp: Let_def split: if_splits)

lemma set_setAdd [simp]: "set (setAdd x vis) = insert x (set vis)"
  by (auto simp: setAdd_def)

termination hillLoop
proof (relation "measure (\<lambda>(p, goalId, current, vis, pm, h, g, st, n). card (allIds p - set vis))",
    goal_cases)
  case 1
  show ?case by simp
next
  case (2 p goalId current vis pm h g st n x bestNeighbor y bestH z h' g' b pm' vis')
  obtain b0 where b0: "bestNeighbor = Some b0"
    using 2 by (cases bestNeighbor) (auto simp: noNeighbor_def)
  have "fst (hillScan p goalId current (getNeighbors p current) vis h g None (numOf (h current)))
          = Some b0"
    using 2 b0 by (metis fst_conv)
  from hillScan_best [OF this] have "b0 \<in> allIds p" "b0 \<notin> set vis"
    using getNeighbors_allIds [of p current] by auto
  then have "allIds p - set (setAdd b0 vis) \<subset> allIds p - set vis"
    by auto
  then have "card (allIds p - set (setAdd b0 vis)) < card (allIds p - set vis)"
    by (intro psubset_card_mono) (simp_all add: finite_allIds)
  then show ?case
    using 2 b0 by simp
qed

section \<open>Beam search\<close>

text \<open>A candidate is \<^verbatim>\<open>{ id, h, parent }\<close>.\<close>

type_synonym candidate = "string \<times> real \<times> string"

fun beamScan ::
  "problem \<Rightarrow> string \<Rightarrow> string \<Rightarrow> (string \<times> real) list \<Rightarrow> string list
   \<Rightarrow> (string \<rightharpoonup> real) \<Rightarrow> (string \<rightharpoonup> real) \<Rightarrow> candidate list
   \<Rightarrow> (string \<rightharpoonup> real) \<times> (string \<rightharpoonup> real) \<times> candidate list"
where
  "beamScan p goalId current [] vis h g candidates = (h, g, candidates)"
| "beamScan p goalId current ((nid, cost) # ns) vis h g candidates =
     (if nid \<notin> set vis then
        let hv = heuristic p goalId nid in
        beamScan p goalId current ns vis (h(nid \<mapsto> hv)) (g(nid \<mapsto> numOf (g current) + cost))
          (candidates @ [(nid, hv, current)])
      else beamScan p goalId current ns vis h g candidates)"

text \<open>The \<^verbatim>\<open>for\<close> loop over the beam; \<open>True\<close> when it met the goal and returned from there.\<close>

fun beamGather ::
  "problem \<Rightarrow> string \<Rightarrow> string list \<Rightarrow> string list \<Rightarrow> (string \<rightharpoonup> real) \<Rightarrow> (string \<rightharpoonup> real)
   \<Rightarrow> candidate list \<Rightarrow> bool \<times> (string \<rightharpoonup> real) \<times> (string \<rightharpoonup> real) \<times> candidate list"
where
  "beamGather p goalId [] vis h g candidates = (False, h, g, candidates)"
| "beamGather p goalId (current # rest) vis h g candidates =
     (if current = goalId then (True, h, g, candidates)
      else
        let (h', g', candidates') =
              beamScan p goalId current (getNeighbors p current) vis h g candidates
        in beamGather p goalId rest vis h' g' candidates')"

fun beamCommit ::
  "candidate list \<Rightarrow> string list \<Rightarrow> (string \<rightharpoonup> string) \<Rightarrow> string list \<times> (string \<rightharpoonup> string)"
where
  "beamCommit [] vis pm = (vis, pm)"
| "beamCommit ((cid, hv, parent) # cs) vis pm = beamCommit cs (setAdd cid vis) (pm(cid \<mapsto> parent))"

text \<open>\<^verbatim>\<open>beam[0]\<close>; of the empty beam (reached with a beam width of 0 only) it is
  \<^verbatim>\<open>undefined\<close>, written as the empty string here.\<close>

definition beamFirst :: "string list \<Rightarrow> string" where
  "beamFirst beam = (case beam of [] \<Rightarrow> [] | b # _ \<Rightarrow> b)"

function beamLoop ::
  "problem \<Rightarrow> string \<Rightarrow> string \<Rightarrow> nat \<Rightarrow> string list \<Rightarrow> string list \<Rightarrow> (string \<rightharpoonup> string)
   \<Rightarrow> (string \<rightharpoonup> real) \<Rightarrow> (string \<rightharpoonup> real) \<Rightarrow> search_step list \<Rightarrow> nat \<Rightarrow> search_result option"
where
  "beamLoop p startId goalId beamWidth beam vis pm h g st n =
     (if beam \<noteq> [] then
        let (met, h', g', candidates) = beamGather p goalId beam vis h g [] in
        if met then
          map_option
            (\<lambda>pth. foundResult ''beamSearch'' p
               (st @ [createStep n goalId beam vis pm g' h' h' True True (Some pth)])
               (Some pth) (g' goalId) (length vis) 100)
            (reconstructPath pm goalId)
        else if candidates = [] then
          Some (notFoundResult ''beamSearch'' p
                  (st @ [createStep n (if beamFirst beam \<noteq> [] then beamFirst beam else startId)
                           [] vis pm g' h' h' True False None])
                  (length vis) 100)
        else
          let chosen = take beamWidth (sort_key (\<lambda>(cid, hv, parent). hv) candidates);
              beam' = map fst chosen;
              (vis', pm') = beamCommit chosen vis pm
          in beamLoop p startId goalId beamWidth beam' vis' pm' h' g'
               (st @ [createStep n (beamFirst beam') beam' vis' pm' g' h' h' False False None])
               (n + 1)
      else Some (notFoundResult ''beamSearch'' p st (length vis) 100))"
  by pat_completeness auto

lemma beamScan_candidates:
  "c \<in> set (snd (snd (beamScan p goalId current ns vis h g cands))) \<Longrightarrow>
     c \<in> set cands \<or> (fst c \<in> fst ` set ns \<and> fst c \<notin> set vis \<and> snd (snd c) = current)"
  by (induction p goalId current ns vis h g cands rule: beamScan.induct)
    (auto simp: Let_def split: if_splits)

lemma beamGather_candidates:
  "c \<in> set (snd (snd (snd (beamGather p goalId beam vis h g cands)))) \<Longrightarrow>
     c \<in> set cands \<or> (fst c \<in> allIds p \<and> fst c \<notin> set vis \<and> snd (snd c) \<in> set beam
        \<and> fst c \<in> fst ` set (getNeighbors p (snd (snd c))))"
proof (induction p goalId beam vis h g cands rule: beamGather.induct)
  case (1 p goalId vis h g candidates)
  then show ?case by simp
next
  case (2 p goalId current rest vis h g candidates)
  show ?case
  proof (cases "current = goalId")
    case True
    with 2 show ?thesis by simp
  next
    case False
    obtain h' g' cands' where scan:
      "beamScan p goalId current (getNeighbors p current) vis h g candidates = (h', g', cands')"
      by (cases "beamScan p goalId current (getNeighbors p current) vis h g candidates") auto
    from 2 False scan
    have "c \<in> set cands' \<or> (fst c \<in> allIds p \<and> fst c \<notin> set vis \<and> snd (snd c) \<in> set rest
            \<and> fst c \<in> fst ` set (getNeighbors p (snd (snd c))))"
      by simp
    moreover have "c \<in> set cands' \<Longrightarrow>
        c \<in> set candidates \<or> (fst c \<in> fst ` set (getNeighbors p current) \<and> fst c \<notin> set vis
           \<and> snd (snd c) = current)"
      using beamScan_candidates [of c p goalId current "getNeighbors p current" vis h g candidates]
        scan by simp
    ultimately show ?thesis
      using getNeighbors_allIds [of p current] by auto
  qed
qed

lemma beamCommit_visited:
  "set (fst (beamCommit chosen vis pm)) = set vis \<union> fst ` set chosen"
proof (induction chosen arbitrary: vis pm)
  case Nil
  show ?case by simp
next
  case (Cons c cs)
  obtain cid hv parent where c: "c = (cid, hv, parent)"
    by (cases c) auto
  show ?case
    unfolding c beamCommit.simps Cons.IH by simp
qed

termination beamLoop
proof (relation "inv_image (less_than <*lex*> less_than)
         (\<lambda>(p, startId, goalId, beamWidth, beam, vis, pm, h, g, st, n).
            (card (allIds p - set vis), length beam))", goal_cases)
  case 1
  show ?case by (rule wf_lex_measure)
next
  case (2 p startId goalId beamWidth beam vis pm h g st n x met y h' z g' candidates chosen beam'
      w vis' pm')
  have gather: "snd (snd (snd (beamGather p goalId beam vis h g []))) = candidates"
    using 2 by (metis snd_conv)
  have vis': "set vis' = set vis \<union> fst ` set chosen"
    using 2 beamCommit_visited [of chosen vis pm] by (metis fst_conv)
  have chosen_sub: "set chosen \<subseteq> set candidates"
    using 2 by (auto dest: in_set_takeD)
  have fresh: "fst c \<in> allIds p \<and> fst c \<notin> set vis" if "c \<in> set chosen" for c
    using beamGather_candidates [of c p goalId beam vis h g "[]"] gather that chosen_sub by auto
  show ?case
  proof (cases chosen)
    case Nil
    then have "vis' = vis" "beam' = []"
      using 2 by auto
    with 2 show ?thesis by simp
  next
    case (Cons c cs)
    then have "fst c \<in> allIds p" "fst c \<notin> set vis" "fst c \<in> set vis'"
      using fresh [of c] vis' by auto
    then have "allIds p - set vis' \<subset> allIds p - set vis"
      using vis' by auto
    from lex_card_less [OF _ this, of "length beam'" "length beam"]
    show ?thesis by (simp add: finite_allIds)
  qed
qed


section \<open>IDA*\<close>

text \<open>The threshold \<open>t\<close> a search returns: a number or \<^verbatim>\<open>Infinity\<close>.\<close>

datatype threshold = Finite real | Infinity

fun lessThreshold :: "threshold \<Rightarrow> threshold \<Rightarrow> bool" where
  "lessThreshold (Finite a) (Finite b) = (a < b)"
| "lessThreshold (Finite a) Infinity = True"
| "lessThreshold Infinity b = False"

text \<open>
  The maps, the step list and the visited set that \<^verbatim>\<open>search\<close> mutates through its
  arguments, and the step counter it passes down and returns.
\<close>

record ida_state =
  ida_gValues :: "string \<rightharpoonup> real"
  ida_hValues :: "string \<rightharpoonup> real"
  ida_fValues :: "string \<rightharpoonup> real"
  ida_parentMap :: "string \<rightharpoonup> string"
  ida_steps :: "search_step list"
  ida_stepNumber :: nat
  ida_visited :: "string list"

record ida_result =
  found :: bool
  t :: threshold
  res_path :: "string list option"
  res_cost :: "real option"
  res_visited :: nat

definition idaEnter :: "problem \<Rightarrow> string \<Rightarrow> string list \<Rightarrow> real \<Rightarrow> ida_state \<Rightarrow> ida_state" where
  "idaEnter p goalId pth g s =
     (let node = last pth;
          h = heuristic p goalId node;
          hs = (ida_hValues s)(node \<mapsto> h);
          gs = (ida_gValues s)(node \<mapsto> g);
          fs = (ida_fValues s)(node \<mapsto> g + h);
          vis = setAdd node (ida_visited s)
      in s\<lparr>ida_hValues := hs, ida_gValues := gs, ida_fValues := fs, ida_visited := vis,
            ida_steps := ida_steps s @
              [createStep (ida_stepNumber s) node pth vis (ida_parentMap s) gs hs fs
                 False (node = goalId) None],
            ida_stepNumber := ida_stepNumber s + 1\<rparr>)"

text \<open>
  \<^verbatim>\<open>search\<close> and the \<^verbatim>\<open>for\<close> loop over the neighbors in it. The array \<open>path\<close> is pushed
  before a recursive call and popped after it, so the call sees \<open>pth @ [nid]\<close> and the
  loop goes on with \<open>pth\<close>. The path is never empty: \<^verbatim>\<open>runIDAStar\<close> starts from
  \<open>[startId]\<close>.
\<close>

function search ::
    "problem \<Rightarrow> string \<Rightarrow> real \<Rightarrow> string list \<Rightarrow> real \<Rightarrow> ida_state \<Rightarrow> ida_result \<times> ida_state"
  and searchNeighbors ::
    "problem \<Rightarrow> string \<Rightarrow> real \<Rightarrow> string list \<Rightarrow> real \<Rightarrow> string \<Rightarrow> (string \<times> real) list
     \<Rightarrow> threshold \<Rightarrow> ida_state \<Rightarrow> ida_result \<times> ida_state"
where
  "search p goalId bound pth g s =
     (let node = last pth;
          f = g + heuristic p goalId node;
          s1 = idaEnter p goalId pth g s
      in
      if f > bound then
        (\<lparr>found = False, t = Finite f, res_path = None, res_cost = None,
          res_visited = length (ida_visited s1)\<rparr>, s1)
      else if node = goalId then
        (\<lparr>found = True, t = Finite f, res_path = Some pth, res_cost = Some g,
          res_visited = length (ida_visited s1)\<rparr>, s1)
      else searchNeighbors p goalId bound pth g node (getNeighbors p node) Infinity s1)"
| "searchNeighbors p goalId bound pth g node [] mn s =
     (\<lparr>found = False, t = mn, res_path = None, res_cost = None,
       res_visited = length (ida_visited s)\<rparr>, s)"
| "searchNeighbors p goalId bound pth g node ((nid, cost) # ns) mn s =
     (if nid \<notin> set pth then
        (case search p goalId bound (pth @ [nid]) (g + cost)
                (s\<lparr>ida_parentMap := (ida_parentMap s)(nid \<mapsto> node)\<rparr>) of
           (r, s') \<Rightarrow>
             if found r then (r, s')
             else searchNeighbors p goalId bound pth g node ns
                    (if lessThreshold (t r) mn then t r else mn) s')
      else searchNeighbors p goalId bound pth g node ns mn s)"
  by pat_completeness auto

termination search
proof (relation "inv_image (less_than <*lex*> less_than)
         (\<lambda>x. case x of
            Inl (p, goalId, bound, pth, g, s) \<Rightarrow>
              (card (allIds p - set pth), Suc (length (getNeighbors p (last pth))))
          | Inr (p, goalId, bound, pth, g, node, ns, mn, s) \<Rightarrow>
              (card ((allIds p \<union> fst ` set ns) - set pth), length ns))", goal_cases)
  case 1
  show ?case by (rule wf_lex_measure)
next
  case (2 p goalId bound pth g s node f s1)
  have "allIds p \<union> fst ` set (getNeighbors p node) = allIds p"
    using getNeighbors_allIds [of p node] by auto
  with 2 show ?case by simp
next
  case (3 p goalId bound pth g node nid cost ns mn s)
  have "allIds p - set (pth @ [nid]) \<subset> (allIds p \<union> fst ` set ((nid, cost) # ns)) - set pth"
    using 3 by auto
  from lex_card_less [OF _ this]
  show ?case by (simp add: finite_allIds)
next
  case (4 p goalId bound pth g node nid cost ns mn s)
  have "fst ` set ns \<subseteq> fst ` set ((nid, cost) # ns)" "length ns < length ((nid, cost) # ns)"
    by auto
  from skip_descends [OF finite_allIds _ this, of p "set pth"]
  show ?case by simp
next
  case (5 p goalId bound pth g node nid cost ns mn s)
  have "fst ` set ns \<subseteq> fst ` set ((nid, cost) # ns)" "length ns < length ((nid, cost) # ns)"
    by auto
  from skip_descends [OF finite_allIds _ this, of p "set pth"]
  show ?case by simp
qed


text \<open>
  The calls \<^verbatim>\<open>search\<close> can make from \<open>[startId]\<close>: a simple path and the cost summed along
  it. They are finitely many, and so are their f-values, the only finite thresholds a
  search returns.
\<close>

inductive_set idaCalls :: "problem \<Rightarrow> string \<Rightarrow> (string list \<times> real) set"
  for p :: problem and startId :: string
where
  root: "([startId], 0) \<in> idaCalls p startId"
| child: "(pth, g) \<in> idaCalls p startId \<Longrightarrow> (nid, cost) \<in> set (getNeighbors p (last pth))
     \<Longrightarrow> nid \<notin> set pth \<Longrightarrow> (pth @ [nid], g + cost) \<in> idaCalls p startId"

definition idaThresholds :: "problem \<Rightarrow> string \<Rightarrow> string \<Rightarrow> real set" where
  "idaThresholds p startId goalId =
     (\<lambda>(pth, g). g + heuristic p goalId (last pth)) ` idaCalls p startId"

definition idaEntries :: "problem \<Rightarrow> string \<Rightarrow> (string \<times> real) set" where
  "idaEntries p startId = (\<Union>n \<in> insert startId (allIds p). set (getNeighbors p n))"

lemma finite_idaEntries: "finite (idaEntries p startId)"
  by (simp add: idaEntries_def finite_allIds)

lemma idaEntries_allIds: "e \<in> idaEntries p startId \<Longrightarrow> fst e \<in> allIds p"
  using neighbor_in_allIds by (cases e) (auto simp: idaEntries_def)

lemma idaCalls_entries:
  "(pth, g) \<in> idaCalls p startId \<Longrightarrow>
     \<exists>es. pth = startId # map fst es \<and> g = sum_list (map snd es) \<and> set es \<subseteq> idaEntries p startId
          \<and> distinct es"
proof (induction rule: idaCalls.induct)
  case root
  show ?case by (rule exI [of _ "[]"]) simp
next
  case (child pth g nid cost)
  then obtain es where es: "pth = startId # map fst es" "g = sum_list (map snd es)"
      "set es \<subseteq> idaEntries p startId" "distinct es"
    by blast
  have "last pth \<in> insert startId (allIds p)"
    using es(1,3) idaEntries_allIds [of _ p startId]
    by (cases es rule: rev_cases) auto
  then have "(nid, cost) \<in> idaEntries p startId"
    using child(2) by (auto simp: idaEntries_def)
  moreover have "(nid, cost) \<notin> set es"
    using child(3) es(1) by force
  ultimately show ?case
    using es by (intro exI [of _ "es @ [(nid, cost)]"]) auto
qed

lemma finite_idaCalls: "finite (idaCalls p startId)"
proof -
  let ?E = "idaEntries p startId"
  let ?L = "{es. set es \<subseteq> ?E \<and> length es \<le> card ?E}"
  have "finite ?L"
    by (rule finite_lists_length_le [OF finite_idaEntries])
  moreover have "idaCalls p startId \<subseteq> (\<lambda>es. (startId # map fst es, sum_list (map snd es))) ` ?L"
  proof
    fix c assume "c \<in> idaCalls p startId"
    then obtain es where es: "c = (startId # map fst es, sum_list (map snd es))"
        "set es \<subseteq> ?E" "distinct es"
      using idaCalls_entries [of "fst c" "snd c" p startId] by (cases c) auto
    have "length es = card (set es)"
      using es(3) by (simp add: distinct_card)
    also have "\<dots> \<le> card ?E"
      using es(2) by (intro card_mono finite_idaEntries)
    finally show "c \<in> (\<lambda>es. (startId # map fst es, sum_list (map snd es))) ` ?L"
      using es by auto
  qed
  ultimately show ?thesis
    by (meson finite_imageI finite_subset)
qed

lemma finite_idaThresholds: "finite (idaThresholds p startId goalId)"
  by (simp add: idaThresholds_def finite_idaCalls)

definition aboveBound :: "problem \<Rightarrow> string \<Rightarrow> string \<Rightarrow> real \<Rightarrow> threshold \<Rightarrow> bool" where
  "aboveBound p startId goalId bound x =
     (case x of Infinity \<Rightarrow> True
      | Finite b \<Rightarrow> bound < b \<and> b \<in> idaThresholds p startId goalId)"

lemma search_threshold_aux:
  "(\<forall>r s'. (pth, g) \<in> idaCalls p startId \<longrightarrow> search p goalId bound pth g s = (r, s') \<longrightarrow> \<not> found r
      \<longrightarrow> aboveBound p startId goalId bound (t r))"
  "(\<forall>r s'. (pth', g') \<in> idaCalls p startId \<longrightarrow> node = last pth'
      \<longrightarrow> set ns \<subseteq> set (getNeighbors p node) \<longrightarrow> aboveBound p startId goalId bound mn
      \<longrightarrow> searchNeighbors p goalId bound pth' g' node ns mn s2 = (r, s') \<longrightarrow> \<not> found r
      \<longrightarrow> aboveBound p startId goalId bound (t r))"
proof (induction p goalId bound pth g s and p goalId bound pth' g' node ns mn s2
    rule: search_searchNeighbors.induct)
  case (1 p goalId bound pth g s)
  show ?case
  proof (intro allI impI)
    fix r s'
    assume call: "(pth, g) \<in> idaCalls p startId"
      and res: "search p goalId bound pth g s = (r, s')" and nf: "\<not> found r"
    let ?f = "g + heuristic p goalId (last pth)"
    have fin: "?f \<in> idaThresholds p startId goalId"
      using call by (force simp: idaThresholds_def)
    show "aboveBound p startId goalId bound (t r)"
    proof (cases "?f > bound")
      case True
      with res have "t r = Finite ?f"
        by (auto simp: Let_def)
      with True fin show ?thesis by (simp add: aboveBound_def)
    next
      case False
      with res nf have ne: "last pth \<noteq> goalId"
        by (auto simp: Let_def)
      with False res have
        "searchNeighbors p goalId bound pth g (last pth) (getNeighbors p (last pth)) Infinity
           (idaEnter p goalId pth g s) = (r, s')"
        by (simp add: Let_def)
      with "1.IH" [OF refl refl refl _ ne] False call nf show ?thesis
        by (auto simp: aboveBound_def)
    qed
  qed
next
  case (2 p goalId bound pth g node mn s)
  then show ?case by auto
next
  case (3 p goalId bound pth g node nid cost ns mn s)
  show ?case
  proof (intro allI impI)
    fix r s'
    assume call: "(pth, g) \<in> idaCalls p startId" and node: "node = last pth"
      and sub: "set ((nid, cost) # ns) \<subseteq> set (getNeighbors p node)"
      and mn: "aboveBound p startId goalId bound mn"
      and res: "searchNeighbors p goalId bound pth g node ((nid, cost) # ns) mn s = (r, s')"
      and nf: "\<not> found r"
    show "aboveBound p startId goalId bound (t r)"
    proof (cases "nid \<in> set pth")
      case True
      with res have "searchNeighbors p goalId bound pth g node ns mn s = (r, s')"
        by simp
      with "3.IH"(3) True call node sub mn nf show ?thesis by auto
    next
      case False
      obtain r1 s1 where r1: "search p goalId bound (pth @ [nid]) (g + cost)
                (s\<lparr>ida_parentMap := (ida_parentMap s)(nid \<mapsto> node)\<rparr>) = (r1, s1)"
        by (cases "search p goalId bound (pth @ [nid]) (g + cost)
                (s\<lparr>ida_parentMap := (ida_parentMap s)(nid \<mapsto> node)\<rparr>)") auto
      have child: "(pth @ [nid], g + cost) \<in> idaCalls p startId"
        using call node sub False by (auto intro: idaCalls.child)
      show ?thesis
      proof (cases "found r1")
        case True
        with res r1 False nf show ?thesis by simp
      next
        case nf1: False
        have t1: "aboveBound p startId goalId bound (t r1)"
          using "3.IH"(1) [OF False] child r1 nf1 by auto
        let ?mn = "if lessThreshold (t r1) mn then t r1 else mn"
        have "aboveBound p startId goalId bound ?mn"
          using t1 mn by simp
        moreover have "searchNeighbors p goalId bound pth g node ns ?mn s1 = (r, s')"
          using res r1 False nf1 by simp
        ultimately show ?thesis
          using "3.IH"(2) [OF False r1 [symmetric] nf1] call node sub nf by auto
      qed
    qed
  qed
qed


text \<open>The \<^verbatim>\<open>while (true)\<close> loop of \<^verbatim>\<open>runIDAStar\<close>; every iteration starts a new visited set.\<close>

function idaLoop ::
  "problem \<Rightarrow> string \<Rightarrow> string \<Rightarrow> real \<Rightarrow> ida_state \<Rightarrow> nat \<Rightarrow> search_result"
where
  "idaLoop p startId goalId bound s totalVisited =
     (case search p goalId bound [startId] 0 (s\<lparr>ida_visited := []\<rparr>) of
        (r, s') \<Rightarrow>
          let totalVisited' = totalVisited + res_visited r in
          if found r then
            foundResult ''idaStar'' p (ida_steps s') (res_path r) (res_cost r) totalVisited' 50
          else
            (case t r of
               Infinity \<Rightarrow>
                 notFoundResult ''idaStar'' p
                   (ida_steps s' @
                      [createStep (ida_stepNumber s') startId [] [] (ida_parentMap s')
                         (ida_gValues s') (ida_hValues s') (ida_fValues s') True False None])
                   totalVisited' 50
             | Finite b \<Rightarrow> idaLoop p startId goalId b s' totalVisited'))"
  by pat_completeness auto

termination idaLoop
proof (relation "measure (\<lambda>(p, startId, goalId, bound, s, totalVisited).
         card {x \<in> idaThresholds p startId goalId. bound < x})", goal_cases)
  case 1
  show ?case by simp
next
  case (2 p startId goalId bound s totalVisited r s' totalVisited' b)
  have "search p goalId bound [startId] 0 (s\<lparr>ida_visited := []\<rparr>) = (r, s')"
    using 2 by simp
  with search_threshold_aux(1) [of "[startId]" 0 p startId goalId bound] 2
  have "aboveBound p startId goalId bound (Finite b)"
    by (metis idaCalls.root)
  then have b: "bound < b" "b \<in> idaThresholds p startId goalId"
    by (simp_all add: aboveBound_def)
  then have "{x \<in> idaThresholds p startId goalId. b < x}
               \<subset> {x \<in> idaThresholds p startId goalId. bound < x}"
    by auto
  then have "card {x \<in> idaThresholds p startId goalId. b < x}
               < card {x \<in> idaThresholds p startId goalId. bound < x}"
    by (intro psubset_card_mono) (simp_all add: finite_idaThresholds)
  then show ?case by simp
qed

section \<open>The eight entry points and the dispatch\<close>

definition runBFS :: "problem \<Rightarrow> search_result option" where
  "runBFS p =
     (let startId = getStartId p; goalId = getGoalId p in
      bfsLoop p goalId [startId] [] Map.empty
        [createStep 0 startId [startId] [] Map.empty Map.empty Map.empty Map.empty
           False False None]
        1)"

definition runDFS :: "problem \<Rightarrow> search_result option" where
  "runDFS p =
     (let startId = getStartId p; goalId = getGoalId p in
      dfsLoop p goalId [startId] [] Map.empty
        [createStep 0 startId [startId] [] Map.empty Map.empty Map.empty Map.empty
           False False None]
        1)"

definition runUCS :: "problem \<Rightarrow> search_result option" where
  "runUCS p =
     (let startId = getStartId p; goalId = getGoalId p;
          gs = [startId \<mapsto> 0]
      in ucsLoop p goalId (enqueue startId 0 []) [] Map.empty gs
           [createStep 0 startId [startId] [] Map.empty gs Map.empty Map.empty
              False False None]
           1)"

definition runGreedy :: "problem \<Rightarrow> search_result option" where
  "runGreedy p =
     (let startId = getStartId p; goalId = getGoalId p;
          h = heuristic p goalId startId;
          hs = [startId \<mapsto> h];
          gs = [startId \<mapsto> 0]
      in greedyLoop p goalId (enqueue startId h []) [] Map.empty gs hs
           [createStep 0 startId [startId] [] Map.empty gs hs hs False False None]
           1)"

definition runAStar :: "problem \<Rightarrow> search_result option" where
  "runAStar p =
     (let startId = getStartId p; goalId = getGoalId p;
          h = heuristic p goalId startId;
          gs = [startId \<mapsto> 0];
          hs = [startId \<mapsto> h];
          fs = [startId \<mapsto> h]
      in astarLoop p goalId (enqueue startId h []) [] Map.empty gs hs fs
           [createStep 0 startId [startId] [] Map.empty gs hs fs False False None]
           1)"

definition runHillClimbing :: "problem \<Rightarrow> search_result option" where
  "runHillClimbing p =
     (let startId = getStartId p; goalId = getGoalId p;
          hs = [startId \<mapsto> heuristic p goalId startId];
          gs = [startId \<mapsto> 0]
      in hillLoop p goalId startId [startId] Map.empty hs gs
           [createStep 0 startId [] [startId] Map.empty gs hs hs False False None]
           1)"

definition runBeamSearch :: "problem \<Rightarrow> nat \<Rightarrow> search_result option" where
  "runBeamSearch p beamWidth =
     (let startId = getStartId p; goalId = getGoalId p;
          hs = [startId \<mapsto> heuristic p goalId startId];
          gs = [startId \<mapsto> 0]
      in beamLoop p startId goalId beamWidth [startId] [startId] Map.empty hs gs
           [createStep 0 startId [startId] [startId] Map.empty gs hs hs False False None]
           1)"

definition runIDAStar :: "problem \<Rightarrow> search_result option" where
  "runIDAStar p =
     (let startId = getStartId p; goalId = getGoalId p;
          gs = [startId \<mapsto> 0];
          hs = [startId \<mapsto> heuristic p goalId startId];
          fs = [startId \<mapsto> numOf (hs startId)];
          bound = numOf (hs startId)
      in Some (idaLoop p startId goalId bound
           \<lparr>ida_gValues = gs, ida_hValues = hs, ida_fValues = fs, ida_parentMap = Map.empty,
            ida_steps = [createStep 0 startId [startId] [] Map.empty gs hs fs False False None],
            ida_stepNumber = 1, ida_visited = []\<rparr>
           0))"

definition algorithmTypes :: "string list" where
  "algorithmTypes =
     [''bfs'', ''dfs'', ''ucs'', ''greedy'', ''astar'', ''hillClimbing'', ''beamSearch'',
      ''idaStar'']"

text \<open>
  \<^verbatim>\<open>runAlgorithm\<close>: \<open>None\<close> when the run does not return, \<open>Some (Inl e)\<close> when it throws,
  \<open>Some (Inr r)\<close> when it returns \<open>r\<close>. Beam search runs with its default width of 2.
\<close>

definition runAlgorithm :: "string \<Rightarrow> problem \<Rightarrow> (error + search_result) option" where
  "runAlgorithm alg p =
     (if alg = ''bfs'' then map_option Inr (runBFS p)
      else if alg = ''dfs'' then map_option Inr (runDFS p)
      else if alg = ''ucs'' then map_option Inr (runUCS p)
      else if alg = ''greedy'' then map_option Inr (runGreedy p)
      else if alg = ''astar'' then map_option Inr (runAStar p)
      else if alg = ''hillClimbing'' then map_option Inr (runHillClimbing p)
      else if alg = ''beamSearch'' then map_option Inr (runBeamSearch p 2)
      else if alg = ''idaStar'' then map_option Inr (runIDAStar p)
      else Some (Inl (UnknownAlgorithm alg)))"

section \<open>Reachability, paths and the parent tree\<close>

text \<open>
  The notions the properties of the engine are stated with: the identifiers the resolver
  lists for a node, the nodes reachable from the start along them, a path whose
  consecutive pairs are neighbors, and the shape of the parent map over the visited list:
  the first visited node is the start and has no parent, every later one has a parent
  that was visited before it and lists it as a neighbor.
\<close>

definition neighborIds :: "problem \<Rightarrow> string \<Rightarrow> string set" where
  "neighborIds p n = fst ` set (getNeighbors p n)"

definition reach :: "problem \<Rightarrow> string \<Rightarrow> string set" where
  "reach p s = {n. (s, n) \<in> {(a, b). b \<in> neighborIds p a}\<^sup>*}"

fun validPath :: "problem \<Rightarrow> string list \<Rightarrow> bool" where
  "validPath p (a # b # rest) = (b \<in> neighborIds p a \<and> validPath p (b # rest))"
| "validPath p [a] = True"
| "validPath p [] = True"

definition goodPath :: "problem \<Rightarrow> string list \<Rightarrow> bool" where
  "goodPath p pth =
     (pth \<noteq> [] \<and> hd pth = getStartId p \<and> last pth = getGoalId p \<and> distinct pth
      \<and> validPath p pth)"

inductive treeOk :: "problem \<Rightarrow> string \<Rightarrow> (string \<rightharpoonup> string) \<Rightarrow> string list \<Rightarrow> bool"
  for p :: problem and s :: string and pm :: "string \<rightharpoonup> string"
where
  none: "treeOk p s pm []"
| root: "pm s = None \<Longrightarrow> treeOk p s pm [s]"
| node: "treeOk p s pm vis \<Longrightarrow> vis \<noteq> [] \<Longrightarrow> c \<notin> set vis \<Longrightarrow> pm c = Some m \<Longrightarrow> m \<in> set vis
     \<Longrightarrow> c \<in> neighborIds p m \<Longrightarrow> treeOk p s pm (vis @ [c])"

lemma reach_refl: "s \<in> reach p s"
  by (simp add: reach_def)

lemma reach_step: "m \<in> reach p s \<Longrightarrow> c \<in> neighborIds p m \<Longrightarrow> c \<in> reach p s"
  unfolding reach_def by (auto intro: rtrancl_into_rtrancl)

lemma reach_allIds: "reach p s \<subseteq> insert s (allIds p)"
proof
  fix n assume "n \<in> reach p s"
  then have "(s, n) \<in> {(a, b). b \<in> neighborIds p a}\<^sup>*"
    by (simp add: reach_def)
  then show "n \<in> insert s (allIds p)"
    by (induction rule: rtrancl_induct)
      (use getNeighbors_allIds in \<open>auto simp: neighborIds_def\<close>)
qed

lemma finite_reach: "finite (reach p s)"
  using reach_allIds finite_allIds by (meson finite_insert finite_subset)

lemma treeOk_distinct: "treeOk p s pm vis \<Longrightarrow> distinct vis"
  by (induction rule: treeOk.induct) auto

lemma treeOk_hd: "treeOk p s pm vis \<Longrightarrow> vis \<noteq> [] \<Longrightarrow> hd vis = s"
  by (induction rule: treeOk.induct) auto

lemma treeOk_reach: "treeOk p s pm vis \<Longrightarrow> set vis \<subseteq> reach p s"
  by (induction rule: treeOk.induct) (auto intro: reach_refl reach_step)

lemma treeOk_cong: "treeOk p s pm vis \<Longrightarrow> (\<And>n. n \<in> set vis \<Longrightarrow> pm' n = pm n) \<Longrightarrow> treeOk p s pm' vis"
proof (induction rule: treeOk.induct)
  case none
  show ?case by (rule treeOk.none)
next
  case root
  then show ?case by (auto intro: treeOk.root)
next
  case (node vis c m)
  then show ?case by (auto intro!: treeOk.node)
qed

lemma validPath_snoc:
  "validPath p pth \<Longrightarrow> pth \<noteq> [] \<Longrightarrow> c \<in> neighborIds p (last pth) \<Longrightarrow> validPath p (pth @ [c])"
  by (induction p pth rule: validPath.induct) auto

text \<open>Every visited node leads back to the start.\<close>

lemma reconstruct_returns:
  "treeOk p s pm vis \<Longrightarrow> n \<in> set vis \<Longrightarrow> \<exists>res. reconstructPathLoop pm n acc = Some res"
proof (induction arbitrary: n acc rule: treeOk.induct)
  case none
  then show ?case by simp
next
  case root
  then show ?case by (simp add: reconstructPathLoop.simps)
next
  case (node vis c m)
  show ?case
  proof (cases "n = c")
    case False
    with node show ?thesis by auto
  next
    case True
    show ?thesis
    proof (cases "c = []")
      case True
      with \<open>n = c\<close> show ?thesis by (simp add: reconstructPathLoop.simps)
    next
      case False
      then have "reconstructPathLoop pm n acc = reconstructPathLoop pm m (c # acc)"
        using node True by (subst reconstructPathLoop.simps) simp
      with node.IH [of m "c # acc"] node.hyps show ?thesis by simp
    qed
  qed
qed

lemma reconstruct_path:
  "treeOk p s pm vis \<Longrightarrow> [] \<notin> set vis \<Longrightarrow> n \<in> set vis \<Longrightarrow>
     \<exists>pth. reconstructPathLoop pm n acc = Some (s, tl pth @ acc) \<and> pth \<noteq> [] \<and> hd pth = s
        \<and> last pth = n \<and> distinct pth \<and> validPath p pth \<and> set pth \<subseteq> set vis"
proof (induction arbitrary: n acc rule: treeOk.induct)
  case none
  then show ?case by simp
next
  case root
  then have "reconstructPathLoop pm n acc = Some (s, tl [s] @ acc)"
    by (simp add: reconstructPathLoop.simps)
  with root show ?case
    by (intro exI [of _ "[s]"]) simp
next
  case (node vis c m)
  show ?case
  proof (cases "n = c")
    case False
    with node.prems node.IH [of n acc] show ?thesis by auto
  next
    case True
    have "c \<noteq> []" using node.prems by auto
    then have eq: "reconstructPathLoop pm n acc = reconstructPathLoop pm m (c # acc)"
      using node True by (subst reconstructPathLoop.simps) simp
    from node.IH [of m "c # acc"] node.prems node.hyps obtain pth where
      pth: "reconstructPathLoop pm m (c # acc) = Some (s, tl pth @ c # acc)" "pth \<noteq> []"
        "hd pth = s" "last pth = m" "distinct pth" "validPath p pth" "set pth \<subseteq> set vis"
      by auto
    show ?thesis
    proof (intro exI [of _ "pth @ [c]"] conjI)
      show "reconstructPathLoop pm n acc = Some (s, tl (pth @ [c]) @ acc)"
        using eq pth(1,2) by simp
      show "distinct (pth @ [c])"
        using pth(5,7) node.hyps(3) by auto
      show "validPath p (pth @ [c])"
        using pth node.hyps by (intro validPath_snoc) auto
    qed (use pth True in auto)
  qed
qed

lemma reconstructPath_returns:
  "treeOk p s pm vis \<Longrightarrow> n \<in> set vis \<Longrightarrow> \<exists>pth. reconstructPath pm n = Some pth"
  using reconstruct_returns [of p s pm vis n "[]"] by (auto simp: reconstructPath_def)

lemma reconstructPath_good:
  assumes "treeOk p s pm vis" "[] \<notin> set vis" "n \<in> set vis" "reconstructPath pm n = Some pth"
  shows "pth \<noteq> [] \<and> hd pth = s \<and> last pth = n \<and> distinct pth \<and> validPath p pth"
proof -
  from reconstruct_path [OF assms(1-3), of "[]"] obtain q where
    q: "reconstructPathLoop pm n [] = Some (s, tl q)" "q \<noteq> []" "hd q = s" "last q = n"
      "distinct q" "validPath p q" "set q \<subseteq> set vis"
    by auto
  have "s \<noteq> []" using q assms(2) by (metis hd_in_set subsetD)
  then have "pth = s # tl q"
    using assms(4) q(1) by (simp add: reconstructPath_def)
  then have "pth = q" using q(2,3) by (cases q) auto
  with q show ?thesis by simp
qed

section \<open>Example problems\<close>

text \<open>\<^verbatim>\<open>createEmptyGrid\<close> of the shared schema, and the editing of cells that the
  problem editor does.\<close>

definition gridCell :: "int \<Rightarrow> int \<Rightarrow> int \<Rightarrow> int \<Rightarrow> grid_cell" where
  "gridCell rs cs r c =
     \<lparr>row = r, col = c, isObstacle = False, isStart = (r = 0 \<and> c = 0),
      isGoal = (r = rs - 1 \<and> c = cs - 1), weight = 1\<rparr>"

definition createEmptyGrid :: "int \<Rightarrow> int \<Rightarrow> grid_problem" where
  "createEmptyGrid rs cs =
     \<lparr>rows = rs, cols = cs,
      cells = concat (map (\<lambda>r. map (\<lambda>c. gridCell rs cs r c) [0..cs - 1]) [0..rs - 1]),
      start = (0, 0), goal = (rs - 1, cs - 1), allowDiagonal = False\<rparr>"

definition withObstacles :: "(int \<times> int) list \<Rightarrow> grid_problem \<Rightarrow> grid_problem" where
  "withObstacles obs g =
     g\<lparr>cells := map (\<lambda>c. if (row c, col c) \<in> set obs then c\<lparr>isObstacle := True\<rparr> else c)
                  (cells g)\<rparr>"

text \<open>The 3 by 3 grid without obstacles, start (0,0), goal (2,2), orthogonal moves.\<close>

definition openGrid :: problem where
  "openGrid = Grid (createEmptyGrid 3 3)"

text \<open>The same grid with diagonal moves.\<close>

definition diagonalGrid :: problem where
  "diagonalGrid = Grid ((createEmptyGrid 3 3)\<lparr>allowDiagonal := True\<rparr>)"

text \<open>The goal (0,2) walled off from the start (0,0) by the obstacles (0,1), (1,1), (1,2).\<close>

definition walledGrid :: problem where
  "walledGrid =
     Grid (withObstacles [(0, 1), (1, 1), (1, 2)] ((createEmptyGrid 3 3)\<lparr>goal := (0, 2)\<rparr>))"

definition graphNode :: "string \<Rightarrow> real \<Rightarrow> real \<Rightarrow> graph_node" where
  "graphNode i a b =
     \<lparr>node_id = i, node_x = a, node_y = b, node_label = Some i, node_isStart = False,
      node_isGoal = False, node_heuristic = None\<rparr>"

definition graphEdge :: "string \<Rightarrow> string \<Rightarrow> real \<Rightarrow> graph_edge" where
  "graphEdge a b w = \<lparr>edge_from = a, edge_to = b, edge_weight = w\<rparr>"

text \<open>Two nodes at the same place and one directed edge of weight 1 from start to goal.\<close>

definition twoNodeGraph :: problem where
  "twoNodeGraph =
     Graph \<lparr>nodes = [graphNode ''N1'' 0 0, graphNode ''N2'' 0 0],
            edges = [graphEdge ''N1'' ''N2'' 1],
            startNodeId = ''N1'', goalNodeId = ''N2'', isDirected = True\<rparr>"

text \<open>\<^verbatim>\<open>createEmptyGraph()\<close>: no node, and the empty string for the unset start and goal.\<close>

definition createEmptyGraph :: problem where
  "createEmptyGraph =
     Graph \<lparr>nodes = [], edges = [], startNodeId = [], goalNodeId = [], isDirected = False\<rparr>"

definition withWeight :: "int \<times> int \<Rightarrow> real \<Rightarrow> grid_problem \<Rightarrow> grid_problem" where
  "withWeight rc w g =
     g\<lparr>cells := map (\<lambda>c. if (row c, col c) = rc then c\<lparr>weight := w\<rparr> else c) (cells g)\<rparr>"

text \<open>The goal (0,1) next to the start (0,0), in a cell of weight 2.\<close>

definition weightedGrid :: problem where
  "weightedGrid = Grid (withWeight (0, 1) 2 ((createEmptyGrid 3 3)\<lparr>goal := (0, 1)\<rparr>))"

text \<open>A directed chain from the start A to the goal B through a node whose id is the
  empty string.\<close>

definition gapGraph :: problem where
  "gapGraph =
     Graph \<lparr>nodes = [graphNode ''A'' 0 0, graphNode [] 50 0, graphNode ''B'' 100 0],
            edges = [graphEdge ''A'' [] 1, graphEdge [] ''B'' 1],
            startNodeId = ''A'', goalNodeId = ''B'', isDirected = True\<rparr>"

section \<open>The neighbor resolver of a grid, as the specification words it\<close>

text \<open>
  The candidate at an offset is the first cell listed with the target coordinates; it is
  emitted when it is in bounds and not an obstacle, at the cost of the step factor times its
  weight. The resolver's list is the candidates' entries in the order of the offsets.
\<close>

definition cellAt :: "grid_problem \<Rightarrow> int \<Rightarrow> int \<Rightarrow> grid_cell option" where
  "cellAt g r c = find (\<lambda>cell. row cell = r \<and> col cell = c) (cells g)"

definition inBounds :: "grid_problem \<Rightarrow> int \<Rightarrow> int \<Rightarrow> bool" where
  "inBounds g r c = (0 \<le> r \<and> r < rows g \<and> 0 \<le> c \<and> c < cols g)"

definition isDiagonal :: "int \<times> int \<Rightarrow> bool" where
  "isDiagonal d = (fst d \<noteq> 0 \<and> snd d \<noteq> 0)"

definition orthogonalOffsets :: "(int \<times> int) set" where
  "orthogonalOffsets = {(-1, 0), (0, -1), (0, 1), (1, 0)}"

definition diagonalOffsets :: "(int \<times> int) set" where
  "diagonalOffsets = {(-1, -1), (-1, 1), (1, -1), (1, 1)}"

definition candidateEntry :: "grid_problem \<Rightarrow> int \<Rightarrow> int \<Rightarrow> int \<times> int \<Rightarrow> (string \<times> real) list" where
  "candidateEntry g r c d =
     (case cellAt g (r + fst d) (c + snd d) of
        None \<Rightarrow> []
      | Some cell \<Rightarrow>
          if inBounds g (r + fst d) (c + snd d) \<and> \<not> isObstacle cell
          then [(gridCellToId (r + fst d) (c + snd d),
                 (if isDiagonal d then 1.414 else 1) * weight cell)]
          else [])"

definition specGridNeighbors :: "grid_problem \<Rightarrow> int \<Rightarrow> int \<Rightarrow> (string \<times> real) list" where
  "specGridNeighbors g r c = concat (map (candidateEntry g r c) (directions (allowDiagonal g)))"

lemma directions_offsets:
  "set (directions diagonal) = orthogonalOffsets \<union> (if diagonal then diagonalOffsets else {})"
  by (auto simp: directions_def orthogonalOffsets_def diagonalOffsets_def)

lemma directions_distinct: "distinct (directions diagonal)"
  by (simp add: directions_def)

lemma gridNeighborsLoop_spec:
  "set ds \<subseteq> orthogonalOffsets \<union> diagonalOffsets \<Longrightarrow>
     gridNeighborsLoop g r c ds acc = acc @ concat (map (candidateEntry g r c) ds)"
proof (induction g r c ds acc rule: gridNeighborsLoop.induct)
  case (1 p r c neighbors)
  show ?case by simp
next
  case (2 p r c dr dc ds neighbors)
  have d: "(dr, dc) \<in> orthogonalOffsets \<union> diagonalOffsets" and ds: "set ds \<subseteq> orthogonalOffsets \<union> diagonalOffsets"
    using "2.prems" by auto
  have diag: "(\<bar>dr\<bar> + \<bar>dc\<bar> = 2) = isDiagonal (dr, dc)"
    using d by (auto simp: orthogonalOffsets_def diagonalOffsets_def isDiagonal_def)
  show ?case
  proof (cases "cellAt p (r + dr) (c + dc)")
    case None
    then show ?thesis
      using "2.IH"(1,4) ds
      by (auto simp: Let_def candidateEntry_def cellAt_def inBounds_def)
  next
    case (Some cell)
    then show ?thesis
      using "2.IH"(2,3,4) ds diag
      by (auto simp: Let_def candidateEntry_def cellAt_def inBounds_def)
  qed
qed

lemma idToGridCell_00: "idToGridCell ''0-0'' = (Some 0, Some 0)"
  by code_simp

lemma nbrs00: "getNeighbors diagonalGrid ''0-0'' = [(''0-1'', 1), (''1-0'', 1), (''1-1'', 1.414)]"
  by code_simp

lemma sqrt2_not_1414: "(1.414 :: real) \<noteq> sqrt 2 * 1"
proof
  assume eq: "(1.414 :: real) = sqrt 2 * 1"
  have "(sqrt 2 * 1)\<^sup>2 = (2 :: real)" by simp
  then have "(1.414 :: real)\<^sup>2 = 2" unfolding eq [symmetric] .
  then show False by (simp add: power2_eq_square)
qed

section \<open>Invariants of the search loops\<close>

text \<open>
  What a run's result is checked against: the trace (visited sizes never shrink from one
  step to the next, and the count reported is the size at the last step), the outcome
  (a success carries a path from the start to the goal along neighbor pairs, a failure
  carries neither path nor cost), and exhaustion (a failure has visited the whole
  component of the start). The loops with a frontier keep \<open>frontInv\<close>: every parent entry
  points from a node to a visited node that lists it, every unvisited frontier node has a
  parent, and the neighbors of visited nodes are visited or in the frontier.
  \<open>expansion\<close> is what the neighbor loop of one expansion does to frontier and parent map.
\<close>

fun stepsMono :: "search_step list \<Rightarrow> bool" where
  "stepsMono (a # b # rest) = (length (visited a) \<le> length (visited b) \<and> stepsMono (b # rest))"
| "stepsMono [a] = True"
| "stepsMono [] = True"

definition traceInv :: "search_step list \<Rightarrow> string list \<Rightarrow> bool" where
  "traceInv st vis = (st \<noteq> [] \<and> stepsMono st \<and> visited (last st) = vis)"

definition traceOk :: "search_result \<Rightarrow> bool" where
  "traceOk r =
     (steps r \<noteq> [] \<and> stepsMono (steps r) \<and> nodesVisited r = length (visited (last (steps r))))"

definition outcomeOk :: "problem \<Rightarrow> string \<Rightarrow> string \<Rightarrow> search_result \<Rightarrow> bool" where
  "outcomeOk p s goalId r =
     (steps r \<noteq> []
      \<and> (success r \<longrightarrow> goalId \<in> reach p s
            \<and> (\<exists>pth. finalPath r = Some pth
                  \<and> ([] \<notin> reach p s \<longrightarrow> pth \<noteq> [] \<and> hd pth = s \<and> last pth = goalId
                        \<and> distinct pth \<and> validPath p pth)))
      \<and> (\<not> success r \<longrightarrow> finalPath r = None \<and> pathCost r = None))"

definition exhaustOk :: "problem \<Rightarrow> string \<Rightarrow> search_result \<Rightarrow> bool" where
  "exhaustOk p s r = (\<not> success r \<longrightarrow> nodesVisited r = card (reach p s))"

definition frontInv ::
  "problem \<Rightarrow> string \<Rightarrow> string set \<Rightarrow> string list \<Rightarrow> (string \<rightharpoonup> string) \<Rightarrow> bool"
where
  "frontInv p s F vis pm =
     ((vis = [] \<longrightarrow> F = {s})
      \<and> (\<forall>n m. pm n = Some m \<longrightarrow> m \<in> set vis \<and> n \<in> neighborIds p m)
      \<and> (\<forall>n \<in> F. n \<notin> set vis \<longrightarrow> vis \<noteq> [] \<longrightarrow> pm n \<noteq> None)
      \<and> (\<forall>v \<in> set vis. neighborIds p v \<subseteq> set vis \<union> F))"

definition expansion ::
  "string set \<Rightarrow> string \<Rightarrow> string set \<Rightarrow> string set \<Rightarrow> (string \<rightharpoonup> string) \<Rightarrow> string set
   \<Rightarrow> (string \<rightharpoonup> string) \<Rightarrow> bool"
where
  "expansion N c V R pm F pm' =
     (R \<subseteq> F \<and> F \<subseteq> R \<union> (N - V) \<and> N - V \<subseteq> F
      \<and> (\<forall>n. pm' n = pm n \<or> (pm' n = Some c \<and> n \<in> N \<and> n \<notin> V))
      \<and> (\<forall>n \<in> F - R. pm' n \<noteq> None))"

lemma stepsMono_snoc:
  "stepsMono st \<Longrightarrow> (st \<noteq> [] \<Longrightarrow> length (visited (last st)) \<le> length (visited x))
     \<Longrightarrow> stepsMono (st @ [x])"
  by (induction st rule: stepsMono.induct) auto

lemma traceInv_snoc:
  "traceInv st vis \<Longrightarrow> length vis \<le> length vis' \<Longrightarrow> visited x = vis' \<Longrightarrow> traceInv (st @ [x]) vis'"
  by (simp add: traceInv_def stepsMono_snoc)

lemma visited_createStep [simp]: "visited (createStep n c fr vis pm g h f d fo pth) = vis"
  by (simp add: createStep_def)

lemma fh_createStep [simp]:
  "hValues (createStep n c fr vis pm g h f d fo pth) = h"
  "fValues (createStep n c fr vis pm g h f d fo pth) = f"
  by (simp_all add: createStep_def)

lemma result_simps [simp]:
  "steps (foundResult alg p st pth cost n per) = st"
  "finalPath (foundResult alg p st pth cost n per) = pth"
  "pathCost (foundResult alg p st pth cost n per) = cost"
  "nodesVisited (foundResult alg p st pth cost n per) = n"
  "success (foundResult alg p st pth cost n per) = True"
  "steps (notFoundResult alg p st n per) = st"
  "finalPath (notFoundResult alg p st n per) = None"
  "pathCost (notFoundResult alg p st n per) = None"
  "nodesVisited (notFoundResult alg p st n per) = n"
  "success (notFoundResult alg p st n per) = False"
  by (simp_all add: foundResult_def notFoundResult_def)

lemma expansionD:
  assumes "expansion N c V R pm F pm'"
  shows "R \<subseteq> F" "F \<subseteq> R \<union> (N - V)" "N - V \<subseteq> F"
    "\<forall>n. pm' n = pm n \<or> (pm' n = Some c \<and> n \<in> N \<and> n \<notin> V)"
    "\<forall>n \<in> F - R. pm' n \<noteq> None"
  using assms by (simp_all add: expansion_def)

lemma expansionI:
  assumes "R \<subseteq> F" "F \<subseteq> R \<union> (N - V)" "N - V \<subseteq> F"
    "\<And>n. pm' n = pm n \<or> (pm' n = Some c \<and> n \<in> N \<and> n \<notin> V)"
    "\<And>n. n \<in> F \<Longrightarrow> n \<notin> R \<Longrightarrow> pm' n \<noteq> None"
  shows "expansion N c V R pm F pm'"
  using assms by (simp add: expansion_def)

lemma expansion_refl: "expansion {} c V R pm R pm"
  by (rule expansionI) simp_all

lemma expansion_trans:
  assumes 1: "expansion N1 c V R pm F1 pm1" and 2: "expansion N2 c V F1 pm1 F2 pm2"
  shows "expansion (N1 \<union> N2) c V R pm F2 pm2"
proof (rule expansionI)
  note a = expansionD [OF 1] and b = expansionD [OF 2]
  show "R \<subseteq> F2" using a(1) b(1) by simp
  show "F2 \<subseteq> R \<union> (N1 \<union> N2 - V)" using a(2) b(2) by auto
  show "N1 \<union> N2 - V \<subseteq> F2" using a(3) b(1,3) by auto
  show "pm2 n = pm n \<or> (pm2 n = Some c \<and> n \<in> N1 \<union> N2 \<and> n \<notin> V)" for n
    using a(4) [rule_format, of n] b(4) [rule_format, of n] by auto
  show "pm2 n \<noteq> None" if "n \<in> F2" "n \<notin> R" for n
  proof (cases "n \<in> F1")
    case True
    then have "pm1 n \<noteq> None" using a(5) that by simp
    with b(4) [rule_format, of n] show ?thesis by auto
  next
    case False
    with b(5) that show ?thesis by simp
  qed
qed

lemma expansion_skip: "nid \<in> V \<or> nid \<in> R \<Longrightarrow> expansion {nid} c V R pm R pm"
  by (rule expansionI) auto

lemma expansion_push:
  assumes "nid \<notin> V" "pm' nid \<noteq> None" "\<And>n. pm' n = pm n \<or> (pm' n = Some c \<and> n = nid)"
  shows "expansion {nid} c V R pm (insert nid R) pm'"
proof (rule expansionI)
  show "pm' n = pm n \<or> (pm' n = Some c \<and> n \<in> {nid} \<and> n \<notin> V)" for n
    using assms(1) assms(3) [of n] by auto
  show "pm' n \<noteq> None" if "n \<in> insert nid R" "n \<notin> R" for n
    using that assms(2) by auto
qed (use assms(1) in auto)

lemma expansion_cons:
  assumes "expansion {nid} c V R pm F1 pm1" "expansion (fst ` set ns) c V F1 pm1 F2 pm2"
  shows "expansion (fst ` set ((nid, cost) # ns)) c V R pm F2 pm2"
  using expansion_trans [OF assms] by simp

lemma frontInvD:
  assumes "frontInv p s F vis pm"
  shows "vis = [] \<Longrightarrow> F = {s}"
    "pm n = Some m \<Longrightarrow> m \<in> set vis \<and> n \<in> neighborIds p m"
    "n \<in> F \<Longrightarrow> n \<notin> set vis \<Longrightarrow> vis \<noteq> [] \<Longrightarrow> pm n \<noteq> None"
    "v \<in> set vis \<Longrightarrow> neighborIds p v \<subseteq> set vis \<union> F"
  using assms by (simp_all add: frontInv_def)

lemma frontInvI:
  assumes "vis = [] \<Longrightarrow> F = {s}"
    "\<And>n m. pm n = Some m \<Longrightarrow> m \<in> set vis \<and> n \<in> neighborIds p m"
    "\<And>n. n \<in> F \<Longrightarrow> n \<notin> set vis \<Longrightarrow> vis \<noteq> [] \<Longrightarrow> pm n \<noteq> None"
    "\<And>v. v \<in> set vis \<Longrightarrow> neighborIds p v \<subseteq> set vis \<union> F"
  shows "frontInv p s F vis pm"
  using assms by (simp add: frontInv_def)

lemma tree_visit:
  assumes "treeOk p s pm vis" "frontInv p s F vis pm" "c \<in> F" "c \<notin> set vis"
  shows "treeOk p s pm (vis @ [c])"
proof (cases "vis = []")
  case True
  then have "c = s"
    using frontInvD(1) [OF assms(2)] assms(3) by simp
  moreover have "pm s = None"
  proof (cases "pm s")
    case (Some m)
    from frontInvD(2) [OF assms(2) this] True show ?thesis by simp
  qed simp
  ultimately show ?thesis
    using True by (simp add: treeOk.root)
next
  case False
  from frontInvD(3) [OF assms(2,3,4) False] obtain m where m: "pm c = Some m"
    by auto
  from frontInvD(2) [OF assms(2) m] have "m \<in> set vis" "c \<in> neighborIds p m"
    by simp_all
  with assms(1,4) False m show ?thesis
    by (intro treeOk.node)
qed

lemma frontInv_skip:
  assumes "frontInv p s F vis pm" "F' \<subseteq> F" "F \<subseteq> insert c F'" "c \<in> set vis"
  shows "frontInv p s F' vis pm"
proof (rule frontInvI)
  show "F' = {s}" if "vis = []"
    using that assms(4) by simp
  show "m \<in> set vis \<and> n \<in> neighborIds p m" if "pm n = Some m" for n m
    using frontInvD(2) [OF assms(1) that] .
  show "pm n \<noteq> None" if "n \<in> F'" "n \<notin> set vis" "vis \<noteq> []" for n
    using frontInvD(3) [OF assms(1) _ that(2,3)] that(1) assms(2) by auto
  show "neighborIds p v \<subseteq> set vis \<union> F'" if "v \<in> set vis" for v
    using frontInvD(4) [OF assms(1) that] assms(3,4) by auto
qed

lemma expand_preserves:
  assumes tree: "treeOk p s pm (vis @ [c])"
    and front: "frontInv p s F vis pm" and c: "c \<in> F" and R: "R \<subseteq> F" "F \<subseteq> insert c R"
    and ex: "expansion (neighborIds p c) c (set (vis @ [c])) R pm F' pm'"
  shows "treeOk p s pm' (vis @ [c])" and "frontInv p s F' (vis @ [c]) pm'"
proof -
  note exD = expansionD [OF ex]
  have same: "pm' n = pm n" if "n \<in> set (vis @ [c])" for n
    using that exD(4) [rule_format, of n] by auto
  with tree show "treeOk p s pm' (vis @ [c])"
    by (rule treeOk_cong)
  show "frontInv p s F' (vis @ [c]) pm'"
  proof (rule frontInvI)
    show "F' = {s}" if "vis @ [c] = []"
      using that by simp
    show "m \<in> set (vis @ [c]) \<and> n \<in> neighborIds p m" if "pm' n = Some m" for n m
    proof (cases "pm' n = pm n")
      case True
      with that frontInvD(2) [OF front, of n m] show ?thesis by simp
    next
      case False
      with exD(4) [rule_format, of n] that show ?thesis by auto
    qed
    show "pm' n \<noteq> None" if "n \<in> F'" "n \<notin> set (vis @ [c])" "vis @ [c] \<noteq> []" for n
    proof (cases "n \<in> R")
      case False
      with that exD(5) show ?thesis by simp
    next
      case True
      have ne: "vis \<noteq> []"
      proof
        assume "vis = []"
        then have "F = {s}" by (rule frontInvD(1) [OF front])
        with True R c that show False by auto
      qed
      have "n \<in> F" "n \<notin> set vis"
        using True R that by auto
      from frontInvD(3) [OF front this ne] have "pm n \<noteq> None" .
      moreover from exD(4) [rule_format, of n] have "pm' n = pm n \<or> pm' n = Some c"
        by auto
      ultimately show ?thesis by auto
    qed
    show "neighborIds p v \<subseteq> set (vis @ [c]) \<union> F'" if "v \<in> set (vis @ [c])" for v
    proof (cases "v = c")
      case True
      with exD(3) show ?thesis by auto
    next
      case False
      with that have "v \<in> set vis" by simp
      from frontInvD(4) [OF front this] exD(1) R show ?thesis by auto
    qed
  qed
qed

lemma closed_reach:
  assumes "s \<in> S" "\<And>v. v \<in> S \<Longrightarrow> neighborIds p v \<subseteq> S"
  shows "reach p s \<subseteq> S"
proof
  fix n assume "n \<in> reach p s"
  then have "(s, n) \<in> {(a, b). b \<in> neighborIds p a}\<^sup>*"
    by (simp add: reach_def)
  then show "n \<in> S"
    by (induction rule: rtrancl_induct) (use assms in auto)
qed

lemma exhausted:
  assumes "treeOk p s pm vis" "frontInv p s {} vis pm"
  shows "length vis = card (reach p s)"
proof -
  have ne: "vis \<noteq> []" using frontInvD(1) [OF assms(2)] by auto
  then have "s \<in> set vis"
    using treeOk_hd [OF assms(1)] hd_in_set [of vis] by auto
  moreover have "neighborIds p v \<subseteq> set vis" if "v \<in> set vis" for v
    using frontInvD(4) [OF assms(2) that] by simp
  ultimately have "reach p s \<subseteq> set vis"
    by (rule closed_reach)
  with treeOk_reach [OF assms(1)] have "set vis = reach p s" by auto
  then show ?thesis
    using treeOk_distinct [OF assms(1)] by (metis distinct_card)
qed

lemma found_ok:
  assumes tree: "treeOk p s pm vis'" and g: "goalId \<in> set vis'"
    and tr: "traceInv st vis" "length vis \<le> length vis'" "\<And>pth. visited (x pth) = vis'"
  shows "\<exists>r. map_option (\<lambda>pth. foundResult alg p (st @ [x pth]) (Some pth) (cost pth) (length vis') per)
                (reconstructPath pm goalId) = Some r
             \<and> traceOk r \<and> outcomeOk p s goalId r \<and> exhaustOk p s r"
proof -
  obtain pth where pth: "reconstructPath pm goalId = Some pth"
    using reconstructPath_returns [OF tree g] by auto
  have "goalId \<in> reach p s"
    using treeOk_reach [OF tree] g by auto
  moreover have "pth \<noteq> [] \<and> hd pth = s \<and> last pth = goalId \<and> distinct pth \<and> validPath p pth"
    if "[] \<notin> reach p s"
    using reconstructPath_good [OF tree _ g pth] that treeOk_reach [OF tree] by auto
  moreover have "traceInv (st @ [x pth]) vis'"
    using tr by (rule traceInv_snoc)
  ultimately show ?thesis
    using pth by (simp add: traceOk_def outcomeOk_def exhaustOk_def traceInv_def)
qed

lemma notFound_ok:
  assumes "treeOk p s pm vis" "frontInv p s {} vis pm" "traceInv st vis"
  shows "traceOk (notFoundResult alg p st (length vis) per)
         \<and> outcomeOk p s goalId (notFoundResult alg p st (length vis) per)
         \<and> exhaustOk p s (notFoundResult alg p st (length vis) per)"
  using assms exhausted [OF assms(1,2)]
  by (simp add: traceOk_def outcomeOk_def exhaustOk_def traceInv_def)

subsection \<open>Breadth-first search\<close>

lemma bfsExpand_expansion:
  "bfsExpand ns c vis q pm = (q', pm') \<Longrightarrow>
     expansion (fst ` set ns) c (set vis) (set q) pm (set q') pm'"
proof (induction ns arbitrary: q pm)
  case Nil
  then show ?case by (simp add: expansion_refl)
next
  case (Cons e ns)
  obtain nid cost where e: "e = (nid, cost)" by (cases e) auto
  show ?case
  proof (cases "nid \<notin> set vis \<and> nid \<notin> set q")
    case True
    have "expansion {nid} c (set vis) (set q) pm (insert nid (set q)) (pm(nid \<mapsto> c))"
      using True by (intro expansion_push) auto
    then have "expansion {nid} c (set vis) (set q) pm (set (q @ [nid])) (pm(nid \<mapsto> c))"
      by simp
    moreover have "bfsExpand ns c vis (q @ [nid]) (pm(nid \<mapsto> c)) = (q', pm')"
      using Cons.prems True e by simp
    from Cons.IH [OF this]
    have "expansion (fst ` set ns) c (set vis) (set (q @ [nid])) (pm(nid \<mapsto> c)) (set q') pm'" .
    ultimately show ?thesis
      unfolding e by (rule expansion_cons)
  next
    case False
    then have "expansion {nid} c (set vis) (set q) pm (set q) pm"
      by (intro expansion_skip) auto
    moreover have "bfsExpand ns c vis q pm = (q', pm')"
      using Cons.prems False e by auto
    from Cons.IH [OF this]
    have "expansion (fst ` set ns) c (set vis) (set q) pm (set q') pm'" .
    ultimately show ?thesis
      unfolding e by (rule expansion_cons)
  qed
qed

lemma bfsLoop_skip:
  "current \<in> set vis \<Longrightarrow>
     bfsLoop p goalId (current # queue) vis pm st n = bfsLoop p goalId queue vis pm st n"
  by simp

lemma bfsLoop_found:
  "current \<notin> set vis \<Longrightarrow> current = goalId \<Longrightarrow>
     bfsLoop p goalId (current # queue) vis pm st n =
       map_option
         (\<lambda>pth. foundResult ''bfs'' p
            (st @ [createStep n current queue (vis @ [current]) pm Map.empty Map.empty Map.empty
                     True True (Some pth)])
            (Some pth) (Some (real_of_int (int (length pth) - 1))) (length (vis @ [current])) 100)
         (reconstructPath pm goalId)"
  by (simp add: Let_def)

lemma bfsLoop_expand:
  "current \<notin> set vis \<Longrightarrow> current \<noteq> goalId \<Longrightarrow>
   bfsExpand (getNeighbors p current) current (vis @ [current]) queue pm = (queue', pm') \<Longrightarrow>
     bfsLoop p goalId (current # queue) vis pm st n =
       bfsLoop p goalId queue' (vis @ [current]) pm'
         (st @ [createStep n current queue' (vis @ [current]) pm' Map.empty Map.empty Map.empty
                  False False None])
         (n + 1)"
  by (simp add: Let_def)

lemma bfsLoop_correct:
  "treeOk p s pm vis \<Longrightarrow> frontInv p s (set queue) vis pm \<Longrightarrow> traceInv st vis \<Longrightarrow>
     \<exists>r. bfsLoop p goalId queue vis pm st n = Some r
        \<and> traceOk r \<and> outcomeOk p s goalId r \<and> exhaustOk p s r"
proof (induction p goalId queue vis pm st n rule: bfsLoop.induct)
  case (1 p goalId vis pm st n)
  have "frontInv p s {} vis pm" using "1.prems"(2) by simp
  from notFound_ok [OF "1.prems"(1) this "1.prems"(3)]
  show ?case by simp
next
  case (2 p goalId current queue vis pm st n)
  have cF: "current \<in> set (current # queue)" "set queue \<subseteq> set (current # queue)"
      "set (current # queue) \<subseteq> insert current (set queue)"
    by auto
  show ?case
  proof (cases "current \<in> set vis")
    case True
    have "frontInv p s (set queue) vis pm"
      using frontInv_skip [OF "2.prems"(2) cF(2,3) True] .
    from "2.IH"(1) [OF True "2.prems"(1) this "2.prems"(3)]
    show ?thesis unfolding bfsLoop_skip [OF True] .
  next
    case False
    have tree': "treeOk p s pm (vis @ [current])"
      using tree_visit [OF "2.prems"(1,2) cF(1) False] .
    show ?thesis
    proof (cases "current = goalId")
      case True
      have "goalId \<in> set (vis @ [current])" using True by simp
      from found_ok [OF tree' this "2.prems"(3), of
          "\<lambda>pth. createStep n current queue (vis @ [current]) pm Map.empty Map.empty Map.empty
                     True True (Some pth)"]
      show ?thesis unfolding bfsLoop_found [OF False True] by simp
    next
      case ne: False
      obtain queue' pm' where ex: "bfsExpand (getNeighbors p current) current (vis @ [current]) queue pm
                  = (queue', pm')"
        by (cases "bfsExpand (getNeighbors p current) current (vis @ [current]) queue pm") auto
      from bfsExpand_expansion [OF ex]
      have "expansion (neighborIds p current) current (set (vis @ [current])) (set queue) pm
              (set queue') pm'"
        unfolding neighborIds_def .
      from expand_preserves [OF tree' "2.prems"(2) cF this]
      have inv: "treeOk p s pm' (vis @ [current])" "frontInv p s (set queue') (vis @ [current]) pm'"
        by auto
      have tr: "traceInv (st @ [createStep n current queue' (vis @ [current]) pm' Map.empty
                        Map.empty Map.empty False False None]) (vis @ [current])"
        using "2.prems"(3) by (rule traceInv_snoc) simp_all
      from "2.IH"(2) [OF False refl ne ex [symmetric] refl inv tr]
      show ?thesis unfolding bfsLoop_expand [OF False ne ex] .
    qed
  qed
qed

subsection \<open>Depth-first search\<close>

declare dfsLoop.simps [simp del]

lemma dfsExpand_expansion:
  "dfsExpand ns c vis stack pm = (stack', pm') \<Longrightarrow>
     expansion (fst ` set ns) c (set vis) (set stack) pm (set stack') pm'"
proof (induction ns arbitrary: stack pm)
  case Nil
  then show ?case by (simp add: expansion_refl)
next
  case (Cons e ns)
  obtain nid cost where e: "e = (nid, cost)" by (cases e) auto
  show ?case
  proof (cases "nid \<notin> set vis")
    case True
    let ?pm1 = "if falsyEntry (pm nid) then pm(nid \<mapsto> c) else pm"
    have "expansion {nid} c (set vis) (set stack) pm (insert nid (set stack)) ?pm1"
      using True by (intro expansion_push) (auto simp: falsyEntry_def split: option.splits)
    then have "expansion {nid} c (set vis) (set stack) pm (set (stack @ [nid])) ?pm1"
      by simp
    moreover have "dfsExpand ns c vis (stack @ [nid]) ?pm1 = (stack', pm')"
      using Cons.prems True e by simp
    from Cons.IH [OF this]
    have "expansion (fst ` set ns) c (set vis) (set (stack @ [nid])) ?pm1 (set stack') pm'" .
    ultimately show ?thesis
      unfolding e by (rule expansion_cons)
  next
    case False
    then have "expansion {nid} c (set vis) (set stack) pm (set stack) pm"
      by (intro expansion_skip) auto
    moreover have "dfsExpand ns c vis stack pm = (stack', pm')"
      using Cons.prems False e by auto
    from Cons.IH [OF this]
    have "expansion (fst ` set ns) c (set vis) (set stack) pm (set stack') pm'" .
    ultimately show ?thesis
      unfolding e by (rule expansion_cons)
  qed
qed

lemma dfsLoop_empty:
  "dfsLoop p goalId [] vis pm st n = Some (notFoundResult ''dfs'' p st (length vis) 100)"
  by (subst dfsLoop.simps) simp

lemma dfsLoop_skip:
  "stack \<noteq> [] \<Longrightarrow> last stack \<in> set vis \<Longrightarrow>
     dfsLoop p goalId stack vis pm st n = dfsLoop p goalId (butlast stack) vis pm st n"
  by (subst dfsLoop.simps) (simp add: Let_def)

lemma dfsLoop_found:
  "stack \<noteq> [] \<Longrightarrow> last stack \<notin> set vis \<Longrightarrow> last stack = goalId \<Longrightarrow>
     dfsLoop p goalId stack vis pm st n =
       map_option
         (\<lambda>pth. foundResult ''dfs'' p
            (st @ [createStep n (last stack) (butlast stack) (vis @ [last stack]) pm
                     Map.empty Map.empty Map.empty True True (Some pth)])
            (Some pth) (Some (real_of_int (int (length pth) - 1)))
            (length (vis @ [last stack])) 100)
         (reconstructPath pm goalId)"
  by (subst dfsLoop.simps) (simp add: Let_def)

lemma dfsLoop_expand:
  "stack \<noteq> [] \<Longrightarrow> last stack \<notin> set vis \<Longrightarrow> last stack \<noteq> goalId \<Longrightarrow>
   dfsExpand (rev (getNeighbors p (last stack))) (last stack) (vis @ [last stack])
     (butlast stack) pm = (stack', pm') \<Longrightarrow>
     dfsLoop p goalId stack vis pm st n =
       dfsLoop p goalId stack' (vis @ [last stack]) pm'
         (st @ [createStep n (last stack) stack' (vis @ [last stack]) pm'
                  Map.empty Map.empty Map.empty False False None])
         (n + 1)"
  by (subst dfsLoop.simps) (simp add: Let_def)

lemma dfsLoop_correct:
  "treeOk p s pm vis \<Longrightarrow> frontInv p s (set stack) vis pm \<Longrightarrow> traceInv st vis \<Longrightarrow>
     \<exists>r. dfsLoop p goalId stack vis pm st n = Some r
        \<and> traceOk r \<and> outcomeOk p s goalId r \<and> exhaustOk p s r"
proof (induction p goalId stack vis pm st n rule: dfsLoop.induct)
  case (1 p goalId stack vis pm st n)
  show ?case
  proof (cases "stack = []")
    case True
    have "frontInv p s {} vis pm" using "1.prems"(2) True by simp
    from notFound_ok [OF "1.prems"(1) this "1.prems"(3)]
    show ?thesis unfolding True dfsLoop_empty by simp
  next
    case ne: False
    let ?c = "last stack" and ?rest = "butlast stack"
    have cF: "?c \<in> set stack" "set ?rest \<subseteq> set stack" "set stack \<subseteq> insert ?c (set ?rest)"
      using ne by (auto dest: in_set_butlastD) (metis append_butlast_last_id in_set_conv_decomp_last
        insert_iff list.set(2) rotate1.simps(2) set_rotate1)
    show ?thesis
    proof (cases "?c \<in> set vis")
      case True
      have "frontInv p s (set ?rest) vis pm"
        using frontInv_skip [OF "1.prems"(2) cF(2,3) True] .
      from "1.IH"(1) [OF ne refl refl True "1.prems"(1) this "1.prems"(3)]
      show ?thesis unfolding dfsLoop_skip [OF ne True] .
    next
      case False
      have tree': "treeOk p s pm (vis @ [?c])"
        using tree_visit [OF "1.prems"(1,2) cF(1) False] .
      show ?thesis
      proof (cases "?c = goalId")
        case True
        have "goalId \<in> set (vis @ [?c])" using True by simp
        from found_ok [OF tree' this "1.prems"(3), of
            "\<lambda>pth. createStep n ?c ?rest (vis @ [?c]) pm Map.empty Map.empty Map.empty
                       True True (Some pth)"]
        show ?thesis unfolding dfsLoop_found [OF ne False True] by simp
      next
        case neq: False
        obtain stack' pm' where ex:
          "dfsExpand (rev (getNeighbors p ?c)) ?c (vis @ [?c]) ?rest pm = (stack', pm')"
          by (cases "dfsExpand (rev (getNeighbors p ?c)) ?c (vis @ [?c]) ?rest pm") auto
        from dfsExpand_expansion [OF ex]
        have "expansion (neighborIds p ?c) ?c (set (vis @ [?c])) (set ?rest) pm (set stack') pm'"
          unfolding neighborIds_def by simp
        from expand_preserves [OF tree' "1.prems"(2) cF this]
        have inv: "treeOk p s pm' (vis @ [?c])" "frontInv p s (set stack') (vis @ [?c]) pm'"
          by auto
        have tr: "traceInv (st @ [createStep n ?c stack' (vis @ [?c]) pm' Map.empty
                          Map.empty Map.empty False False None]) (vis @ [?c])"
          using "1.prems"(3) by (rule traceInv_snoc) simp_all
        from "1.IH"(2) [OF ne refl refl False refl neq ex [symmetric] refl inv tr]
        show ?thesis unfolding dfsLoop_expand [OF ne False neq ex] .
      qed
    qed
  qed
qed

subsection \<open>Uniform-cost search\<close>

lemma fst_set_enqueue [simp]:
  "fst ` set (enqueue item priority items) = insert item (fst ` set items)"
  by simp

lemma ucsExpand_expansion:
  "ucsExpand ns c vis pq pm g = (pq', pm', g') \<Longrightarrow> dom g \<subseteq> set vis \<union> fst ` set pq \<Longrightarrow>
     expansion (fst ` set ns) c (set vis) (fst ` set pq) pm (fst ` set pq') pm'
     \<and> dom g' \<subseteq> set vis \<union> fst ` set pq'"
proof (induction ns arbitrary: pq pm g)
  case Nil
  then show ?case by (simp add: expansion_refl)
next
  case (Cons e ns)
  obtain nid cost where e: "e = (nid, cost)" by (cases e) auto
  let ?newG = "numOf (g c) + cost"
  show ?case
  proof (cases "nid \<notin> set vis \<and> (g nid = None \<or> ?newG < numOf (g nid))")
    case True
    have "expansion {nid} c (set vis) (fst ` set pq) pm (insert nid (fst ` set pq)) (pm(nid \<mapsto> c))"
      using True by (intro expansion_push) auto
    then have 1: "expansion {nid} c (set vis) (fst ` set pq) pm
                 (fst ` set (enqueue nid ?newG pq)) (pm(nid \<mapsto> c))"
      by simp
    have run: "ucsExpand ns c vis (enqueue nid ?newG pq) (pm(nid \<mapsto> c)) (g(nid \<mapsto> ?newG))
                 = (pq', pm', g')"
      using Cons.prems(1) True e by (simp add: Let_def)
    have "dom (g(nid \<mapsto> ?newG)) \<subseteq> set vis \<union> fst ` set (enqueue nid ?newG pq)"
      using Cons.prems(2) by auto
    from Cons.IH [OF run this]
    have 2: "expansion (fst ` set ns) c (set vis) (fst ` set (enqueue nid ?newG pq))
               (pm(nid \<mapsto> c)) (fst ` set pq') pm'"
      and 3: "dom g' \<subseteq> set vis \<union> fst ` set pq'"
      by blast+
    from expansion_cons [OF 1 2] 3 show ?thesis
      unfolding e by blast
  next
    case False
    then have "nid \<in> set vis \<or> nid \<in> fst ` set pq"
      using Cons.prems(2) by auto
    then have 1: "expansion {nid} c (set vis) (fst ` set pq) pm (fst ` set pq) pm"
      by (rule expansion_skip)
    have "ucsExpand ns c vis pq pm g = (pq', pm', g')"
      using Cons.prems(1) False e by (auto simp: Let_def split: if_splits)
    from Cons.IH [OF this Cons.prems(2)]
    have 2: "expansion (fst ` set ns) c (set vis) (fst ` set pq) pm (fst ` set pq') pm'"
      and 3: "dom g' \<subseteq> set vis \<union> fst ` set pq'"
      by blast+
    from expansion_cons [OF 1 2] 3 show ?thesis
      unfolding e by blast
  qed
qed

lemma ucsLoop_skip:
  "current \<in> set vis \<Longrightarrow>
     ucsLoop p goalId ((current, pr) # pq) vis pm g st n = ucsLoop p goalId pq vis pm g st n"
  by simp

lemma ucsLoop_found:
  "current \<notin> set vis \<Longrightarrow> current = goalId \<Longrightarrow>
     ucsLoop p goalId ((current, pr) # pq) vis pm g st n =
       map_option
         (\<lambda>pth. foundResult ''ucs'' p
            (st @ [createStep n current (toArray pq) (vis @ [current]) pm g Map.empty Map.empty
                     True True (Some pth)])
            (Some pth) (g goalId) (length (vis @ [current])) 100)
         (reconstructPath pm goalId)"
  by (simp add: Let_def)

lemma ucsLoop_expand:
  "current \<notin> set vis \<Longrightarrow> current \<noteq> goalId \<Longrightarrow>
   ucsExpand (getNeighbors p current) current (vis @ [current]) pq pm g = (pq', pm', g') \<Longrightarrow>
     ucsLoop p goalId ((current, pr) # pq) vis pm g st n =
       ucsLoop p goalId pq' (vis @ [current]) pm' g'
         (st @ [createStep n current (toArray pq') (vis @ [current]) pm' g' Map.empty Map.empty
                  False False None])
         (n + 1)"
  by (simp add: Let_def)

lemma ucsLoop_correct:
  "treeOk p s pm vis \<Longrightarrow> frontInv p s (fst ` set pq) vis pm \<Longrightarrow> traceInv st vis \<Longrightarrow>
   dom g \<subseteq> set vis \<union> fst ` set pq \<Longrightarrow>
     \<exists>r. ucsLoop p goalId pq vis pm g st n = Some r
        \<and> traceOk r \<and> outcomeOk p s goalId r \<and> exhaustOk p s r"
proof (induction p goalId pq vis pm g st n rule: ucsLoop.induct)
  case (1 p goalId vis pm g st n)
  have "frontInv p s {} vis pm" using "1.prems"(2) by simp
  from notFound_ok [OF "1.prems"(1) this "1.prems"(3)]
  show ?case by simp
next
  case (2 p goalId current pr pq vis pm g st n)
  let ?F = "fst ` set ((current, pr) # pq)"
  have cF: "current \<in> ?F" "fst ` set pq \<subseteq> ?F" "?F \<subseteq> insert current (fst ` set pq)"
    by auto
  show ?case
  proof (cases "current \<in> set vis")
    case True
    have "frontInv p s (fst ` set pq) vis pm"
      using frontInv_skip [OF "2.prems"(2) cF(2,3) True] .
    moreover have "dom g \<subseteq> set vis \<union> fst ` set pq"
      using "2.prems"(4) True by auto
    ultimately show ?thesis
      using "2.IH"(1) [OF True "2.prems"(1) _ "2.prems"(3)]
      unfolding ucsLoop_skip [OF True] by blast
  next
    case False
    have tree': "treeOk p s pm (vis @ [current])"
      using tree_visit [OF "2.prems"(1,2) cF(1) False] .
    show ?thesis
    proof (cases "current = goalId")
      case True
      have "goalId \<in> set (vis @ [current])" using True by simp
      from found_ok [OF tree' this "2.prems"(3), of
          "\<lambda>pth. createStep n current (toArray pq) (vis @ [current]) pm g Map.empty Map.empty
                     True True (Some pth)"]
      show ?thesis unfolding ucsLoop_found [OF False True] by simp
    next
      case ne: False
      obtain pq' pm' g' where ex:
        "ucsExpand (getNeighbors p current) current (vis @ [current]) pq pm g = (pq', pm', g')"
        by (cases "ucsExpand (getNeighbors p current) current (vis @ [current]) pq pm g") auto
      have "dom g \<subseteq> set (vis @ [current]) \<union> fst ` set pq"
        using "2.prems"(4) by auto
      from ucsExpand_expansion [OF ex this]
      have exp: "expansion (neighborIds p current) current (set (vis @ [current])) (fst ` set pq) pm
              (fst ` set pq') pm'"
        and dom: "dom g' \<subseteq> set (vis @ [current]) \<union> fst ` set pq'"
        unfolding neighborIds_def by blast+
      from expand_preserves [OF tree' "2.prems"(2) cF exp]
      have inv: "treeOk p s pm' (vis @ [current])"
          "frontInv p s (fst ` set pq') (vis @ [current]) pm'"
        by auto
      have tr: "traceInv (st @ [createStep n current (toArray pq') (vis @ [current]) pm' g'
                        Map.empty Map.empty False False None]) (vis @ [current])"
        using "2.prems"(3) by (rule traceInv_snoc) simp_all
      from "2.IH"(2) [OF False refl ne ex [symmetric] refl refl inv tr dom]
      show ?thesis unfolding ucsLoop_expand [OF False ne ex] .
    qed
  qed
qed

subsection \<open>Greedy best-first search\<close>

definition fhInv :: "search_step list \<Rightarrow> bool" where
  "fhInv st = (\<forall>x \<in> set st. fValues x = hValues x)"

lemma fhInv_snoc: "fhInv st \<Longrightarrow> fValues x = hValues x \<Longrightarrow> fhInv (st @ [x])"
  by (simp add: fhInv_def)

lemma greedyExpand_expansion:
  "greedyExpand p goalId ns c vis pq pm g h = (pq', pm', g', h') \<Longrightarrow>
     expansion (fst ` set ns) c (set vis) (fst ` set pq) pm (fst ` set pq') pm'"
proof (induction ns arbitrary: pq pm g h)
  case Nil
  then show ?case by (simp add: expansion_refl)
next
  case (Cons e ns)
  obtain nid cost where e: "e = (nid, cost)" by (cases e) auto
  let ?hv = "heuristic p goalId nid"
  show ?case
  proof (cases "nid \<notin> set vis")
    case True
    have "expansion {nid} c (set vis) (fst ` set pq) pm (insert nid (fst ` set pq)) (pm(nid \<mapsto> c))"
      using True by (intro expansion_push) auto
    then have 1: "expansion {nid} c (set vis) (fst ` set pq) pm
                 (fst ` set (enqueue nid ?hv pq)) (pm(nid \<mapsto> c))"
      by simp
    have "greedyExpand p goalId ns c vis (enqueue nid ?hv pq) (pm(nid \<mapsto> c))
            (g(nid \<mapsto> numOf (g c) + cost)) (h(nid \<mapsto> ?hv)) = (pq', pm', g', h')"
      using Cons.prems(1) True e by (simp add: Let_def)
    from Cons.IH [OF this]
    have 2: "expansion (fst ` set ns) c (set vis) (fst ` set (enqueue nid ?hv pq))
               (pm(nid \<mapsto> c)) (fst ` set pq') pm'" .
    from expansion_cons [OF 1 2] show ?thesis
      unfolding e .
  next
    case False
    then have 1: "expansion {nid} c (set vis) (fst ` set pq) pm (fst ` set pq) pm"
      by (intro expansion_skip) auto
    have "greedyExpand p goalId ns c vis pq pm g h = (pq', pm', g', h')"
      using Cons.prems(1) False e by auto
    from Cons.IH [OF this]
    have 2: "expansion (fst ` set ns) c (set vis) (fst ` set pq) pm (fst ` set pq') pm'" .
    from expansion_cons [OF 1 2] show ?thesis
      unfolding e .
  qed
qed

lemma greedyLoop_skip:
  "current \<in> set vis \<Longrightarrow>
     greedyLoop p goalId ((current, pr) # pq) vis pm g h st n
       = greedyLoop p goalId pq vis pm g h st n"
  by simp

lemma greedyLoop_found:
  "current \<notin> set vis \<Longrightarrow> current = goalId \<Longrightarrow>
     greedyLoop p goalId ((current, pr) # pq) vis pm g h st n =
       map_option
         (\<lambda>pth. foundResult ''greedy'' p
            (st @ [createStep n current (toArray pq) (vis @ [current]) pm g h h
                     True True (Some pth)])
            (Some pth) (Some (sumPathCost p pth 0)) (length (vis @ [current])) 100)
         (reconstructPath pm goalId)"
  by (simp add: Let_def)

lemma greedyLoop_expand:
  "current \<notin> set vis \<Longrightarrow> current \<noteq> goalId \<Longrightarrow>
   greedyExpand p goalId (getNeighbors p current) current (vis @ [current]) pq pm g h
     = (pq', pm', g', h') \<Longrightarrow>
     greedyLoop p goalId ((current, pr) # pq) vis pm g h st n =
       greedyLoop p goalId pq' (vis @ [current]) pm' g' h'
         (st @ [createStep n current (toArray pq') (vis @ [current]) pm' g' h' h'
                  False False None])
         (n + 1)"
  by (simp add: Let_def)

lemma found_fh:
  assumes "fhInv st" "\<And>pth. fValues (x pth) = hValues (x pth)"
    and "map_option (\<lambda>pth. foundResult alg p (st @ [x pth]) (Some pth) (cost pth) k per) res
           = Some r"
  shows "fhInv (steps r)"
  using assms by (auto simp: fhInv_def)

lemma greedyLoop_correct:
  "treeOk p s pm vis \<Longrightarrow> frontInv p s (fst ` set pq) vis pm \<Longrightarrow> traceInv st vis \<Longrightarrow>
   fhInv st \<Longrightarrow>
     \<exists>r. greedyLoop p goalId pq vis pm g h st n = Some r
        \<and> traceOk r \<and> outcomeOk p s goalId r \<and> exhaustOk p s r \<and> fhInv (steps r)"
proof (induction p goalId pq vis pm g h st n rule: greedyLoop.induct)
  case (1 p goalId vis pm g h st n)
  have "frontInv p s {} vis pm" using "1.prems"(2) by simp
  from notFound_ok [OF "1.prems"(1) this "1.prems"(3)] "1.prems"(4)
  show ?case by simp
next
  case (2 p goalId current pr pq vis pm g h st n)
  let ?F = "fst ` set ((current, pr) # pq)"
  have cF: "current \<in> ?F" "fst ` set pq \<subseteq> ?F" "?F \<subseteq> insert current (fst ` set pq)"
    by auto
  show ?case
  proof (cases "current \<in> set vis")
    case True
    have "frontInv p s (fst ` set pq) vis pm"
      using frontInv_skip [OF "2.prems"(2) cF(2,3) True] .
    from "2.IH"(1) [OF True "2.prems"(1) this "2.prems"(3,4)]
    show ?thesis unfolding greedyLoop_skip [OF True] .
  next
    case False
    have tree': "treeOk p s pm (vis @ [current])"
      using tree_visit [OF "2.prems"(1,2) cF(1) False] .
    show ?thesis
    proof (cases "current = goalId")
      case True
      let ?x = "\<lambda>pth. createStep n current (toArray pq) (vis @ [current]) pm g h h
                     True True (Some pth)"
      have "goalId \<in> set (vis @ [current])" using True by simp
      from found_ok [OF tree' this "2.prems"(3), of ?x
          "''greedy''" "\<lambda>pth. Some (sumPathCost p pth 0)" 100]
      obtain r where r: "map_option (\<lambda>pth. foundResult ''greedy'' p (st @ [?x pth]) (Some pth)
            (Some (sumPathCost p pth 0)) (length (vis @ [current])) 100)
            (reconstructPath pm goalId) = Some r"
          "traceOk r" "outcomeOk p s goalId r" "exhaustOk p s r"
        by auto
      from found_fh [OF "2.prems"(4) _ r(1)] have "fhInv (steps r)" by simp
      with r show ?thesis unfolding greedyLoop_found [OF False True] by blast
    next
      case ne: False
      obtain pq' pm' g' h' where ex:
        "greedyExpand p goalId (getNeighbors p current) current (vis @ [current]) pq pm g h
           = (pq', pm', g', h')"
        by (cases "greedyExpand p goalId (getNeighbors p current) current (vis @ [current])
                     pq pm g h") auto
      from greedyExpand_expansion [OF ex]
      have exp: "expansion (neighborIds p current) current (set (vis @ [current])) (fst ` set pq) pm
              (fst ` set pq') pm'"
        unfolding neighborIds_def .
      from expand_preserves [OF tree' "2.prems"(2) cF exp]
      have inv: "treeOk p s pm' (vis @ [current])"
          "frontInv p s (fst ` set pq') (vis @ [current]) pm'"
        by auto
      let ?x = "createStep n current (toArray pq') (vis @ [current]) pm' g' h' h'
                        False False None"
      have tr: "traceInv (st @ [?x]) (vis @ [current])"
        using "2.prems"(3) by (rule traceInv_snoc) simp_all
      have fh: "fhInv (st @ [?x])"
        using "2.prems"(4) by (rule fhInv_snoc) simp
      from "2.IH"(2) [OF False refl ne ex [symmetric] refl refl refl inv tr fh]
      show ?thesis unfolding greedyLoop_expand [OF False ne ex] .
    qed
  qed
qed

subsection \<open>A* search\<close>

lemma astarExpand_expansion:
  "astarExpand p goalId ns c vis pq pm g h f = (pq', pm', g', h', f') \<Longrightarrow>
   dom g \<subseteq> set vis \<union> fst ` set pq \<Longrightarrow>
     expansion (fst ` set ns) c (set vis) (fst ` set pq) pm (fst ` set pq') pm'
     \<and> dom g' \<subseteq> set vis \<union> fst ` set pq'"
proof (induction ns arbitrary: pq pm g h f)
  case Nil
  then show ?case by (simp add: expansion_refl)
next
  case (Cons e ns)
  obtain nid cost where e: "e = (nid, cost)" by (cases e) auto
  let ?newG = "numOf (g c) + cost"
  let ?hv = "heuristic p goalId nid"
  show ?case
  proof (cases "nid \<notin> set vis \<and> (g nid = None \<or> ?newG < numOf (g nid))")
    case True
    have "expansion {nid} c (set vis) (fst ` set pq) pm (insert nid (fst ` set pq)) (pm(nid \<mapsto> c))"
      using True by (intro expansion_push) auto
    then have 1: "expansion {nid} c (set vis) (fst ` set pq) pm
                 (fst ` set (enqueue nid (?newG + ?hv) pq)) (pm(nid \<mapsto> c))"
      by simp
    have run: "astarExpand p goalId ns c vis (enqueue nid (?newG + ?hv) pq) (pm(nid \<mapsto> c))
                 (g(nid \<mapsto> ?newG)) (h(nid \<mapsto> ?hv)) (f(nid \<mapsto> ?newG + ?hv))
                 = (pq', pm', g', h', f')"
      using Cons.prems(1) True e by (simp add: Let_def)
    have "dom (g(nid \<mapsto> ?newG)) \<subseteq> set vis \<union> fst ` set (enqueue nid (?newG + ?hv) pq)"
      using Cons.prems(2) by auto
    from Cons.IH [OF run this]
    have 2: "expansion (fst ` set ns) c (set vis) (fst ` set (enqueue nid (?newG + ?hv) pq))
               (pm(nid \<mapsto> c)) (fst ` set pq') pm'"
      and 3: "dom g' \<subseteq> set vis \<union> fst ` set pq'"
      by blast+
    from expansion_cons [OF 1 2] 3 show ?thesis
      unfolding e by blast
  next
    case False
    then have "nid \<in> set vis \<or> nid \<in> fst ` set pq"
      using Cons.prems(2) by auto
    then have 1: "expansion {nid} c (set vis) (fst ` set pq) pm (fst ` set pq) pm"
      by (rule expansion_skip)
    have "astarExpand p goalId ns c vis pq pm g h f = (pq', pm', g', h', f')"
      using Cons.prems(1) False e by (auto simp: Let_def split: if_splits)
    from Cons.IH [OF this Cons.prems(2)]
    have 2: "expansion (fst ` set ns) c (set vis) (fst ` set pq) pm (fst ` set pq') pm'"
      and 3: "dom g' \<subseteq> set vis \<union> fst ` set pq'"
      by blast+
    from expansion_cons [OF 1 2] 3 show ?thesis
      unfolding e by blast
  qed
qed

lemma astarLoop_skip:
  "current \<in> set vis \<Longrightarrow>
     astarLoop p goalId ((current, pr) # pq) vis pm g h f st n
       = astarLoop p goalId pq vis pm g h f st n"
  by simp

lemma astarLoop_found:
  "current \<notin> set vis \<Longrightarrow> current = goalId \<Longrightarrow>
     astarLoop p goalId ((current, pr) # pq) vis pm g h f st n =
       map_option
         (\<lambda>pth. foundResult ''astar'' p
            (st @ [createStep n current (toArray pq) (vis @ [current]) pm g h f
                     True True (Some pth)])
            (Some pth) (g goalId) (length (vis @ [current])) 100)
         (reconstructPath pm goalId)"
  by (simp add: Let_def)

lemma astarLoop_expand:
  "current \<notin> set vis \<Longrightarrow> current \<noteq> goalId \<Longrightarrow>
   astarExpand p goalId (getNeighbors p current) current (vis @ [current]) pq pm g h f
     = (pq', pm', g', h', f') \<Longrightarrow>
     astarLoop p goalId ((current, pr) # pq) vis pm g h f st n =
       astarLoop p goalId pq' (vis @ [current]) pm' g' h' f'
         (st @ [createStep n current (toArray pq') (vis @ [current]) pm' g' h' f'
                  False False None])
         (n + 1)"
  by (simp add: Let_def)

lemma astarLoop_correct:
  "treeOk p s pm vis \<Longrightarrow> frontInv p s (fst ` set pq) vis pm \<Longrightarrow> traceInv st vis \<Longrightarrow>
   dom g \<subseteq> set vis \<union> fst ` set pq \<Longrightarrow>
     \<exists>r. astarLoop p goalId pq vis pm g h f st n = Some r
        \<and> traceOk r \<and> outcomeOk p s goalId r \<and> exhaustOk p s r"
proof (induction p goalId pq vis pm g h f st n rule: astarLoop.induct)
  case (1 p goalId vis pm g h f st n)
  have "frontInv p s {} vis pm" using "1.prems"(2) by simp
  from notFound_ok [OF "1.prems"(1) this "1.prems"(3)]
  show ?case by simp
next
  case (2 p goalId current pr pq vis pm g h f st n)
  let ?F = "fst ` set ((current, pr) # pq)"
  have cF: "current \<in> ?F" "fst ` set pq \<subseteq> ?F" "?F \<subseteq> insert current (fst ` set pq)"
    by auto
  show ?case
  proof (cases "current \<in> set vis")
    case True
    have "frontInv p s (fst ` set pq) vis pm"
      using frontInv_skip [OF "2.prems"(2) cF(2,3) True] .
    moreover have "dom g \<subseteq> set vis \<union> fst ` set pq"
      using "2.prems"(4) True by auto
    ultimately show ?thesis
      using "2.IH"(1) [OF True "2.prems"(1) _ "2.prems"(3)]
      unfolding astarLoop_skip [OF True] by blast
  next
    case False
    have tree': "treeOk p s pm (vis @ [current])"
      using tree_visit [OF "2.prems"(1,2) cF(1) False] .
    show ?thesis
    proof (cases "current = goalId")
      case True
      have "goalId \<in> set (vis @ [current])" using True by simp
      from found_ok [OF tree' this "2.prems"(3), of
          "\<lambda>pth. createStep n current (toArray pq) (vis @ [current]) pm g h f
                     True True (Some pth)"]
      show ?thesis unfolding astarLoop_found [OF False True] by simp
    next
      case ne: False
      obtain pq' pm' g' h' f' where ex:
        "astarExpand p goalId (getNeighbors p current) current (vis @ [current]) pq pm g h f
           = (pq', pm', g', h', f')"
        by (cases "astarExpand p goalId (getNeighbors p current) current (vis @ [current])
                     pq pm g h f") auto
      have "dom g \<subseteq> set (vis @ [current]) \<union> fst ` set pq"
        using "2.prems"(4) by auto
      from astarExpand_expansion [OF ex this]
      have exp: "expansion (neighborIds p current) current (set (vis @ [current])) (fst ` set pq) pm
              (fst ` set pq') pm'"
        and dom: "dom g' \<subseteq> set (vis @ [current]) \<union> fst ` set pq'"
        unfolding neighborIds_def by blast+
      from expand_preserves [OF tree' "2.prems"(2) cF exp]
      have inv: "treeOk p s pm' (vis @ [current])"
          "frontInv p s (fst ` set pq') (vis @ [current]) pm'"
        by auto
      have tr: "traceInv (st @ [createStep n current (toArray pq') (vis @ [current]) pm' g' h' f'
                        False False None]) (vis @ [current])"
        using "2.prems"(3) by (rule traceInv_snoc) simp_all
      from "2.IH"(2) [OF False refl ne ex [symmetric] refl refl refl refl inv tr dom]
      show ?thesis unfolding astarLoop_expand [OF False ne ex] .
    qed
  qed
qed

subsection \<open>Hill climbing\<close>

declare hillLoop.simps [simp del]

lemma hillLoop_found:
  "hillLoop p goalId goalId vis pm h g st n =
     map_option
       (\<lambda>pth. foundResult ''hillClimbing'' p st (Some pth) (g goalId) (length vis) 100)
       (reconstructPath pm goalId)"
  by (subst hillLoop.simps) simp

lemma hillLoop_stuck:
  "current \<noteq> goalId \<Longrightarrow>
   hillScan p goalId current (getNeighbors p current) vis h g None (numOf (h current))
     = (best, bestH, h', g') \<Longrightarrow> noNeighbor best \<Longrightarrow>
     hillLoop p goalId current vis pm h g st n =
       Some (notFoundResult ''hillClimbing'' p
               (st @ [createStep n current [] vis pm g' h' h' True False None])
               (length vis) 100)"
  by (subst hillLoop.simps) simp

lemma hillLoop_move:
  "current \<noteq> goalId \<Longrightarrow>
   hillScan p goalId current (getNeighbors p current) vis h g None (numOf (h current))
     = (Some b, bestH, h', g') \<Longrightarrow> b \<noteq> [] \<Longrightarrow>
     hillLoop p goalId current vis pm h g st n =
       hillLoop p goalId b (setAdd b vis) (pm(b \<mapsto> current)) h' g'
         (st @ [createStep n b [] (setAdd b vis) (pm(b \<mapsto> current)) g' h' h'
                  False (b = goalId) None])
         (n + 1)"
  by (subst hillLoop.simps) (simp add: noNeighbor_def Let_def)

lemma tree_attach:
  assumes "treeOk p s pm vis" "m \<in> set vis" "b \<notin> set vis" "b \<in> neighborIds p m"
  shows "treeOk p s (pm(b \<mapsto> m)) (vis @ [b])"
proof -
  have "treeOk p s (pm(b \<mapsto> m)) vis"
    using assms(1) by (rule treeOk_cong) (use assms(3) in auto)
  moreover have "vis \<noteq> []" using assms(2) by auto
  ultimately show ?thesis
    using assms by (intro treeOk.node [where m = m]) auto
qed

lemma found_ok':
  assumes tree: "treeOk p s pm vis" and g: "goalId \<in> set vis"
    and tr: "\<And>pth. traceInv (st pth) vis"
  shows "\<exists>r. map_option (\<lambda>pth. foundResult alg p (st pth) (Some pth) (cost pth) (length vis) per)
                (reconstructPath pm goalId) = Some r
             \<and> traceOk r \<and> outcomeOk p s goalId r"
proof -
  obtain pth where pth: "reconstructPath pm goalId = Some pth"
    using reconstructPath_returns [OF tree g] by auto
  have "goalId \<in> reach p s"
    using treeOk_reach [OF tree] g by auto
  moreover have "pth \<noteq> [] \<and> hd pth = s \<and> last pth = goalId \<and> distinct pth \<and> validPath p pth"
    if "[] \<notin> reach p s"
    using reconstructPath_good [OF tree _ g pth] that treeOk_reach [OF tree] by auto
  ultimately show ?thesis
    using pth tr [of pth] by (simp add: traceOk_def outcomeOk_def traceInv_def)
qed

lemma stopped_ok:
  assumes "traceInv st vis"
  shows "traceOk (notFoundResult alg p st (length vis) per)
         \<and> outcomeOk p s goalId (notFoundResult alg p st (length vis) per)"
  using assms by (simp add: traceOk_def outcomeOk_def traceInv_def)

lemma hillLoop_correct:
  "treeOk p s pm vis \<Longrightarrow> current \<in> set vis \<Longrightarrow> traceInv st vis \<Longrightarrow> fhInv st \<Longrightarrow>
     \<exists>r. hillLoop p goalId current vis pm h g st n = Some r
        \<and> traceOk r \<and> outcomeOk p s goalId r \<and> fhInv (steps r)"
proof (induction p goalId current vis pm h g st n rule: hillLoop.induct)
  case (1 p goalId current vis pm h g st n)
  show ?case
  proof (cases "current = goalId")
    case True
    from found_ok' [OF "1.prems"(1), of goalId "\<lambda>pth. st" "''hillClimbing''"
        "\<lambda>pth. g goalId" 100] "1.prems"(2,3) True
    obtain r where r: "map_option (\<lambda>pth. foundResult ''hillClimbing'' p st (Some pth) (g goalId)
           (length vis) 100) (reconstructPath pm goalId) = Some r" "traceOk r" "outcomeOk p s goalId r"
      by auto
    then have "steps r = st" by auto
    with r "1.prems"(4) show ?thesis
      unfolding True hillLoop_found by auto
  next
    case ne: False
    obtain best bestH h' g' where scan:
      "hillScan p goalId current (getNeighbors p current) vis h g None (numOf (h current))
         = (best, bestH, h', g')"
      by (cases "hillScan p goalId current (getNeighbors p current) vis h g None
                   (numOf (h current))") auto
    show ?thesis
    proof (cases "noNeighbor best")
      case True
      let ?x = "createStep n current [] vis pm g' h' h' True False None"
      have "traceInv (st @ [?x]) vis"
        using "1.prems"(3) by (rule traceInv_snoc) simp_all
      from stopped_ok [OF this, of "''hillClimbing''" p 100 s goalId]
      have "traceOk (notFoundResult ''hillClimbing'' p (st @ [?x]) (length vis) 100)
            \<and> outcomeOk p s goalId (notFoundResult ''hillClimbing'' p (st @ [?x]) (length vis) 100)" .
      moreover have "fhInv (st @ [?x])"
        using "1.prems"(4) by (rule fhInv_snoc) simp
      ultimately show ?thesis
        unfolding hillLoop_stuck [OF ne scan True] by simp
    next
      case False
      then obtain b where b: "best = Some b" "b \<noteq> []"
        by (cases best) (auto simp: noNeighbor_def)
      have "fst (hillScan p goalId current (getNeighbors p current) vis h g None
                   (numOf (h current))) = Some b"
        using scan b by simp
      from hillScan_best [OF this] have fresh: "b \<in> neighborIds p current" "b \<notin> set vis"
        by (auto simp: neighborIds_def)
      have vis': "setAdd b vis = vis @ [b]"
        using fresh by (simp add: setAdd_def)
      have tree': "treeOk p s (pm(b \<mapsto> current)) (setAdd b vis)"
        unfolding vis' using tree_attach [OF "1.prems"(1,2) fresh(2,1)] .
      let ?x = "createStep n b [] (setAdd b vis) (pm(b \<mapsto> current)) g' h' h'
                  False (b = goalId) None"
      have tr: "traceInv (st @ [?x]) (setAdd b vis)"
        using "1.prems"(3) by (rule traceInv_snoc) (simp_all add: vis')
      have fh: "fhInv (st @ [?x])"
        using "1.prems"(4) by (rule fhInv_snoc) simp
      have bin: "b \<in> set (setAdd b vis)" by simp
      have scan': "(best, bestH, h', g') =
          hillScan p goalId current (getNeighbors p current) vis h g None (numOf (h current))"
        using scan by simp
      from "1.IH" [OF ne scan' refl refl refl False _ refl refl, of b] b tree' bin tr fh
      show ?thesis
        unfolding hillLoop_move [OF ne scan [unfolded b(1)] b(2)] by (simp add: fun_upd_def)
    qed
  qed
qed

subsection \<open>Beam search\<close>

declare beamLoop.simps [simp del]

lemma treeOk_snocD:
  assumes "treeOk p s pm (vis @ [c])" "vis \<noteq> []"
  shows "treeOk p s pm vis \<and> c \<notin> set vis
         \<and> (\<exists>m. pm c = Some m \<and> m \<in> set vis \<and> c \<in> neighborIds p m)"
  using assms by (cases rule: treeOk.cases) auto

lemma tree_reattach:
  assumes "treeOk p s pm (vis0 @ new)" "vis0 \<noteq> []" "b \<in> set new" "m \<in> set vis0"
    "b \<in> neighborIds p m" "pm' = pm(b \<mapsto> m)"
  shows "treeOk p s pm' (vis0 @ new)"
  using assms(1,3)
proof (induction new rule: rev_induct)
  case Nil
  then show ?case by simp
next
  case (snoc x xs)
  have ne: "vis0 @ xs \<noteq> []" using assms(2) by simp
  from treeOk_snocD [OF _ ne, of p s pm x] snoc.prems(1)
  obtain m' where x: "treeOk p s pm (vis0 @ xs)" "x \<notin> set (vis0 @ xs)" "pm x = Some m'"
      "m' \<in> set (vis0 @ xs)" "x \<in> neighborIds p m'"
    by auto
  show ?case
  proof (cases "x = b")
    case True
    have "treeOk p s (pm(b \<mapsto> m)) ((vis0 @ xs) @ [b])"
      using x(1,2) assms(4,5) True by (intro tree_attach) auto
    then show ?thesis unfolding True assms(6) by (simp add: fun_upd_def)
  next
    case False
    with snoc.prems(2) have "b \<in> set xs" by simp
    from snoc.IH [OF x(1) this] have "treeOk p s pm' (vis0 @ xs)" .
    moreover have "pm' x = Some m'" using x(3) False by (simp add: assms(6))
    ultimately have "treeOk p s pm' ((vis0 @ xs) @ [x])"
      using ne x(2,4,5) by (intro treeOk.node [where m = m']) auto
    then show ?thesis by simp
  qed
qed

lemma beamCommit_tree:
  assumes "vis0 \<noteq> []"
    and "\<And>c. c \<in> set chosen \<Longrightarrow>
           fst c \<notin> set vis0 \<and> snd (snd c) \<in> set vis0 \<and> fst c \<in> neighborIds p (snd (snd c))"
  shows "treeOk p s pm (vis0 @ new) \<Longrightarrow> beamCommit chosen (vis0 @ new) pm = (vis', pm')
           \<Longrightarrow> treeOk p s pm' vis' \<and> (\<exists>new'. vis' = vis0 @ new')"
  using assms(2)
proof (induction chosen arbitrary: new pm)
  case Nil
  then show ?case by auto
next
  case (Cons c cs)
  obtain cid hv par where c: "c = (cid, hv, par)" by (cases c) auto
  have facts: "cid \<notin> set vis0" "par \<in> set vis0" "cid \<in> neighborIds p par"
    using Cons.prems(3) [of c] c by auto
  have run: "beamCommit cs (setAdd cid (vis0 @ new)) (pm(cid \<mapsto> par)) = (vis', pm')"
    using Cons.prems(2) c by simp
  show ?case
  proof (cases "cid \<in> set new")
    case True
    then have same: "setAdd cid (vis0 @ new) = vis0 @ new"
      by (simp add: setAdd_def)
    have "treeOk p s (pm(cid \<mapsto> par)) (vis0 @ new)"
      using tree_reattach [OF Cons.prems(1) assms(1) True facts(2,3) refl] .
    from Cons.IH [OF this run [unfolded same]] Cons.prems(3) show ?thesis by auto
  next
    case False
    then have app: "setAdd cid (vis0 @ new) = vis0 @ (new @ [cid])"
      using facts(1) by (simp add: setAdd_def)
    have "treeOk p s (pm(cid \<mapsto> par)) ((vis0 @ new) @ [cid])"
      using Cons.prems(1) facts False by (intro tree_attach) auto
    then have "treeOk p s (pm(cid \<mapsto> par)) (vis0 @ (new @ [cid]))" by simp
    from Cons.IH [OF this run [unfolded app]] Cons.prems(3) show ?thesis by auto
  qed
qed

lemma beamLoop_empty:
  "beamLoop p startId goalId w [] vis pm h g st n
     = Some (notFoundResult ''beamSearch'' p st (length vis) 100)"
  by (subst beamLoop.simps) simp

lemma beamLoop_found:
  "beam \<noteq> [] \<Longrightarrow> beamGather p goalId beam vis h g [] = (True, h', g', cands) \<Longrightarrow>
     beamLoop p startId goalId w beam vis pm h g st n =
       map_option
         (\<lambda>pth. foundResult ''beamSearch'' p
            (st @ [createStep n goalId beam vis pm g' h' h' True True (Some pth)])
            (Some pth) (g' goalId) (length vis) 100)
         (reconstructPath pm goalId)"
  by (subst beamLoop.simps) simp

lemma beamLoop_stuck:
  "beam \<noteq> [] \<Longrightarrow> beamGather p goalId beam vis h g [] = (False, h', g', []) \<Longrightarrow>
     beamLoop p startId goalId w beam vis pm h g st n =
       Some (notFoundResult ''beamSearch'' p
               (st @ [createStep n (if beamFirst beam \<noteq> [] then beamFirst beam else startId)
                        [] vis pm g' h' h' True False None])
               (length vis) 100)"
  by (subst beamLoop.simps) simp

lemma beamLoop_next:
  "beam \<noteq> [] \<Longrightarrow> beamGather p goalId beam vis h g [] = (False, h', g', cands) \<Longrightarrow>
   cands \<noteq> [] \<Longrightarrow>
   beamCommit (take w (sort_key (\<lambda>(cid, hv, parent). hv) cands)) vis pm = (vis', pm') \<Longrightarrow>
     beamLoop p startId goalId w beam vis pm h g st n =
       beamLoop p startId goalId w
         (map fst (take w (sort_key (\<lambda>(cid, hv, parent). hv) cands))) vis' pm' h' g'
         (st @ [createStep n
                  (beamFirst (map fst (take w (sort_key (\<lambda>(cid, hv, parent). hv) cands))))
                  (map fst (take w (sort_key (\<lambda>(cid, hv, parent). hv) cands)))
                  vis' pm' g' h' h' False False None])
         (n + 1)"
  by (subst beamLoop.simps) (simp add: Let_def)

lemma beamGather_met:
  "beamGather p goalId beam vis h g cands = (True, h', g', cands') \<Longrightarrow> goalId \<in> set beam"
  by (induction p goalId beam vis h g cands rule: beamGather.induct)
    (auto split: if_splits prod.splits)

lemma beamLoop_correct:
  "treeOk p s pm vis \<Longrightarrow> vis \<noteq> [] \<Longrightarrow> set beam \<subseteq> set vis \<Longrightarrow> traceInv st vis \<Longrightarrow> fhInv st \<Longrightarrow>
     \<exists>r. beamLoop p startId goalId w beam vis pm h g st n = Some r
        \<and> traceOk r \<and> outcomeOk p s goalId r \<and> fhInv (steps r)"
proof (induction p startId goalId w beam vis pm h g st n rule: beamLoop.induct)
  case (1 p startId goalId w beam vis pm h g st n)
  show ?case
  proof (cases "beam = []")
    case True
    from stopped_ok [OF "1.prems"(4), of "''beamSearch''" p 100 s goalId] "1.prems"(5)
    show ?thesis unfolding True beamLoop_empty by simp
  next
    case ne: False
    obtain met h' g' cands where gather:
      "beamGather p goalId beam vis h g [] = (met, h', g', cands)"
      by (cases "beamGather p goalId beam vis h g []") auto
    show ?thesis
    proof (cases met)
      case True
      let ?x = "\<lambda>pth. createStep n goalId beam vis pm g' h' h' True True (Some pth)"
      have gatherT: "beamGather p goalId beam vis h g [] = (True, h', g', cands)"
        using gather True by simp
      have "goalId \<in> set vis"
        using beamGather_met [OF gatherT] "1.prems"(3) by auto
      moreover have "traceInv (st @ [?x pth]) vis" for pth
        using "1.prems"(4) by (rule traceInv_snoc) simp_all
      ultimately obtain r where r:
        "map_option (\<lambda>pth. foundResult ''beamSearch'' p (st @ [?x pth]) (Some pth) (g' goalId)
           (length vis) 100) (reconstructPath pm goalId) = Some r"
        "traceOk r" "outcomeOk p s goalId r"
        using found_ok' [OF "1.prems"(1), of goalId "\<lambda>pth. st @ [?x pth]" "''beamSearch''"
            "\<lambda>pth. g' goalId" 100]
        by blast
      from found_fh [OF "1.prems"(5) _ r(1)] have "fhInv (steps r)" by simp
      with r show ?thesis
        unfolding beamLoop_found [OF ne gatherT] by blast
    next
      case nm: False
      have gatherF: "beamGather p goalId beam vis h g [] = (False, h', g', cands)"
        using gather nm by simp
      show ?thesis
      proof (cases "cands = []")
        case True
        let ?x = "createStep n (if beamFirst beam \<noteq> [] then beamFirst beam else startId)
                        [] vis pm g' h' h' True False None"
        have "traceInv (st @ [?x]) vis"
          using "1.prems"(4) by (rule traceInv_snoc) simp_all
        from stopped_ok [OF this, of "''beamSearch''" p 100 s goalId]
        have "traceOk (notFoundResult ''beamSearch'' p (st @ [?x]) (length vis) 100)
            \<and> outcomeOk p s goalId (notFoundResult ''beamSearch'' p (st @ [?x]) (length vis) 100)" .
        moreover have "fhInv (st @ [?x])"
          using "1.prems"(5) by (rule fhInv_snoc) simp
        ultimately show ?thesis
          unfolding beamLoop_stuck [OF ne gatherF [unfolded True]] by simp
      next
        case nc: False
        let ?chosen = "take w (sort_key (\<lambda>(cid, hv, parent). hv) cands)"
        obtain vis' pm' where commit: "beamCommit ?chosen vis pm = (vis', pm')"
          by (cases "beamCommit ?chosen vis pm") auto
        have sub: "set ?chosen \<subseteq> set cands"
          by (auto dest: in_set_takeD)
        have cand: "fst c \<notin> set vis \<and> snd (snd c) \<in> set vis \<and> fst c \<in> neighborIds p (snd (snd c))"
          if "c \<in> set ?chosen" for c
        proof -
          have "c \<in> set (snd (snd (snd (beamGather p goalId beam vis h g []))))"
            using that sub gather by auto
          from beamGather_candidates [OF this] "1.prems"(3) show ?thesis
            by (auto simp: neighborIds_def)
        qed
        from beamCommit_tree [OF "1.prems"(2) cand, of ?chosen s pm "[]" vis' pm'] "1.prems"(1) commit
        obtain new' where tree': "treeOk p s pm' vis'" and vis': "vis' = vis @ new'"
          by auto
        have ne': "vis' \<noteq> []" using vis' "1.prems"(2) by simp
        have beam': "set (map fst ?chosen) \<subseteq> set vis'"
          using beamCommit_visited [of ?chosen vis pm] commit by auto
        let ?x = "createStep n (beamFirst (map fst ?chosen)) (map fst ?chosen)
                  vis' pm' g' h' h' False False None"
        have tr: "traceInv (st @ [?x]) vis'"
          using "1.prems"(4) by (rule traceInv_snoc) (simp_all add: vis')
        have fh: "fhInv (st @ [?x])"
          using "1.prems"(5) by (rule fhInv_snoc) simp
        have g1: "(met, h', g', cands) = beamGather p goalId beam vis h g []"
          using gather by simp
        from "1.IH" [OF ne g1 refl refl refl nm nc refl refl commit [symmetric] refl
            tree' ne' beam' tr fh]
        show ?thesis
          unfolding beamLoop_next [OF ne gatherF nc commit] .
      qed
    qed
  qed
qed

subsection \<open>IDA*\<close>

declare idaLoop.simps [simp del]

lemma idaCalls_path:
  "(pth, g) \<in> idaCalls p s \<Longrightarrow>
     pth \<noteq> [] \<and> hd pth = s \<and> distinct pth \<and> validPath p pth \<and> set pth \<subseteq> reach p s"
proof (induction rule: idaCalls.induct)
  case root
  show ?case by (simp add: reach_refl)
next
  case (child pth g nid cost)
  then have "nid \<in> neighborIds p (last pth)"
    by (force simp: neighborIds_def)
  moreover have "last pth \<in> reach p s"
    using child.IH by (metis last_in_set subsetD)
  ultimately show ?case
    using child by (auto intro: validPath_snoc reach_step)
qed

definition idaOutcome :: "problem \<Rightarrow> string \<Rightarrow> string \<Rightarrow> ida_result \<Rightarrow> bool" where
  "idaOutcome p s goalId r =
     (if found r
      then (\<exists>pth g. (pth, g) \<in> idaCalls p s \<and> res_path r = Some pth \<and> res_cost r = Some g
              \<and> last pth = goalId)
      else res_path r = None \<and> res_cost r = None)"

lemma idaEnter_steps: "ida_steps (idaEnter p goalId pth g s) \<noteq> []"
  by (simp add: idaEnter_def Let_def)

lemma search_outcome_aux:
  "(\<forall>r s'. (pth, g) \<in> idaCalls p startId \<longrightarrow> search p goalId bound pth g s = (r, s')
      \<longrightarrow> ida_steps s' \<noteq> [] \<and> idaOutcome p startId goalId r)"
  "(\<forall>r s'. (pth', g') \<in> idaCalls p startId \<longrightarrow> node = last pth'
      \<longrightarrow> set ns \<subseteq> set (getNeighbors p node) \<longrightarrow> ida_steps s2 \<noteq> []
      \<longrightarrow> searchNeighbors p goalId bound pth' g' node ns mn s2 = (r, s')
      \<longrightarrow> ida_steps s' \<noteq> [] \<and> idaOutcome p startId goalId r)"
proof (induction p goalId bound pth g s and p goalId bound pth' g' node ns mn s2
    rule: search_searchNeighbors.induct)
  case (1 p goalId bound pth g s)
  show ?case
  proof (intro allI impI)
    fix r s'
    assume call: "(pth, g) \<in> idaCalls p startId"
      and res: "search p goalId bound pth g s = (r, s')"
    let ?f = "g + heuristic p goalId (last pth)"
    show "ida_steps s' \<noteq> [] \<and> idaOutcome p startId goalId r"
    proof (cases "?f > bound")
      case True
      with res show ?thesis
        by (auto simp: Let_def idaOutcome_def idaEnter_steps)
    next
      case False
      show ?thesis
      proof (cases "last pth = goalId")
        case True
        with False res call show ?thesis
          by (auto simp: Let_def idaOutcome_def idaEnter_steps)
      next
        case ne: False
        with False res have
          "searchNeighbors p goalId bound pth g (last pth) (getNeighbors p (last pth)) Infinity
             (idaEnter p goalId pth g s) = (r, s')"
          by (simp add: Let_def)
        with "1.IH" [OF refl refl refl _ ne] False call show ?thesis
          by (auto simp: idaEnter_steps)
      qed
    qed
  qed
next
  case (2 p goalId bound pth g node mn s)
  then show ?case by (auto simp: idaOutcome_def)
next
  case (3 p goalId bound pth g node nid cost ns mn s)
  show ?case
  proof (intro allI impI)
    fix r s'
    assume call: "(pth, g) \<in> idaCalls p startId" and node: "node = last pth"
      and sub: "set ((nid, cost) # ns) \<subseteq> set (getNeighbors p node)"
      and st: "ida_steps s \<noteq> []"
      and res: "searchNeighbors p goalId bound pth g node ((nid, cost) # ns) mn s = (r, s')"
    show "ida_steps s' \<noteq> [] \<and> idaOutcome p startId goalId r"
    proof (cases "nid \<in> set pth")
      case True
      with res have "searchNeighbors p goalId bound pth g node ns mn s = (r, s')"
        by simp
      with "3.IH"(3) True call node sub st show ?thesis by auto
    next
      case False
      obtain r1 s1 where r1: "search p goalId bound (pth @ [nid]) (g + cost)
                (s\<lparr>ida_parentMap := (ida_parentMap s)(nid \<mapsto> node)\<rparr>) = (r1, s1)"
        by (cases "search p goalId bound (pth @ [nid]) (g + cost)
                (s\<lparr>ida_parentMap := (ida_parentMap s)(nid \<mapsto> node)\<rparr>)") auto
      have child: "(pth @ [nid], g + cost) \<in> idaCalls p startId"
        using call node sub False by (auto intro: idaCalls.child)
      have one: "ida_steps s1 \<noteq> [] \<and> idaOutcome p startId goalId r1"
        using "3.IH"(1) [OF False] child r1 by auto
      show ?thesis
      proof (cases "found r1")
        case True
        with res r1 False one show ?thesis by simp
      next
        case nf1: False
        let ?mn = "if lessThreshold (t r1) mn then t r1 else mn"
        have "searchNeighbors p goalId bound pth g node ns ?mn s1 = (r, s')"
          using res r1 False nf1 by simp
        then show ?thesis
          using "3.IH"(2) [OF False r1 [symmetric] nf1] call node sub one by auto
      qed
    qed
  qed
qed

lemma idaLoop_found:
  "search p goalId bound [startId] 0 (s\<lparr>ida_visited := []\<rparr>) = (r, s') \<Longrightarrow> found r \<Longrightarrow>
     idaLoop p startId goalId bound s tot =
       foundResult ''idaStar'' p (ida_steps s') (res_path r) (res_cost r)
         (tot + res_visited r) 50"
  by (subst idaLoop.simps) (simp add: Let_def)

lemma idaLoop_exhausted:
  "search p goalId bound [startId] 0 (s\<lparr>ida_visited := []\<rparr>) = (r, s') \<Longrightarrow> \<not> found r \<Longrightarrow>
   t r = Infinity \<Longrightarrow>
     idaLoop p startId goalId bound s tot =
       notFoundResult ''idaStar'' p
         (ida_steps s' @
            [createStep (ida_stepNumber s') startId [] [] (ida_parentMap s')
               (ida_gValues s') (ida_hValues s') (ida_fValues s') True False None])
         (tot + res_visited r) 50"
  by (subst idaLoop.simps) (simp add: Let_def)

lemma idaLoop_deepen:
  "search p goalId bound [startId] 0 (s\<lparr>ida_visited := []\<rparr>) = (r, s') \<Longrightarrow> \<not> found r \<Longrightarrow>
   t r = Finite b \<Longrightarrow>
     idaLoop p startId goalId bound s tot
       = idaLoop p startId goalId b s' (tot + res_visited r)"
  by (subst idaLoop.simps) (simp add: Let_def)

lemma idaLoop_correct:
  "outcomeOk p startId goalId (idaLoop p startId goalId bound s tot)"
proof (induction p startId goalId bound s tot rule: idaLoop.induct)
  case (1 p startId goalId bound s tot)
  obtain r s' where res: "search p goalId bound [startId] 0 (s\<lparr>ida_visited := []\<rparr>) = (r, s')"
    by (cases "search p goalId bound [startId] 0 (s\<lparr>ida_visited := []\<rparr>)") auto
  from search_outcome_aux(1) [of "[startId]" 0 p startId goalId bound "s\<lparr>ida_visited := []\<rparr>"] res
  have out: "ida_steps s' \<noteq> []" "idaOutcome p startId goalId r"
    by (auto intro: idaCalls.root)
  show ?case
  proof (cases "found r")
    case True
    then obtain pth g where pth: "(pth, g) \<in> idaCalls p startId" "res_path r = Some pth"
        "last pth = goalId"
      using out(2) by (auto simp: idaOutcome_def)
    from idaCalls_path [OF pth(1)] pth(3)
    have "pth \<noteq> [] \<and> hd pth = startId \<and> last pth = goalId \<and> distinct pth \<and> validPath p pth"
      and "goalId \<in> reach p startId"
      by (auto dest: last_in_set)
    with pth(2) out(1) show ?thesis
      unfolding idaLoop_found [OF res True] by (simp add: outcomeOk_def)
  next
    case nf: False
    show ?thesis
    proof (cases "t r")
      case Infinity
      show ?thesis
        unfolding idaLoop_exhausted [OF res nf Infinity] by (simp add: outcomeOk_def)
    next
      case (Finite b)
      from "1.IH" [OF res [symmetric] refl nf Finite]
      show ?thesis
        unfolding idaLoop_deepen [OF res nf Finite] .
    qed
  qed
qed

text \<open>
  Every step \<^verbatim>\<open>search\<close> records holds the path of the call in its \<open>frontier\<close> field. The
  calls made from \<open>[startId]\<close> are calls of \<open>idaCalls\<close>, so every recorded path repeats no
  node and stays in the component of the start.
\<close>

definition pathsOk :: "problem \<Rightarrow> string \<Rightarrow> search_step list \<Rightarrow> bool" where
  "pathsOk p s st = (\<forall>x \<in> set st. distinct (frontier x) \<and> set (frontier x) \<subseteq> reach p s)"

lemma frontier_createStep [simp]: "frontier (createStep n c fr vis pm g h f d fo pth) = fr"
  by (simp add: createStep_def)

lemma pathsOk_snoc:
  "pathsOk p s st \<Longrightarrow> distinct (frontier x) \<Longrightarrow> set (frontier x) \<subseteq> reach p s
     \<Longrightarrow> pathsOk p s (st @ [x])"
  by (simp add: pathsOk_def)

lemma idaEnter_paths:
  assumes "(pth, g) \<in> idaCalls p startId" "pathsOk p startId (ida_steps s)"
  shows "pathsOk p startId (ida_steps (idaEnter p goalId pth g s))"
proof -
  from idaCalls_path [OF assms(1)] have "distinct pth" "set pth \<subseteq> reach p startId"
    by auto
  with assms(2) show ?thesis
    by (simp add: idaEnter_def Let_def pathsOk_snoc)
qed

lemma search_paths_aux:
  "(\<forall>r s'. (pth, g) \<in> idaCalls p startId \<longrightarrow> pathsOk p startId (ida_steps s)
      \<longrightarrow> search p goalId bound pth g s = (r, s') \<longrightarrow> pathsOk p startId (ida_steps s'))"
  "(\<forall>r s'. (pth', g') \<in> idaCalls p startId \<longrightarrow> node = last pth'
      \<longrightarrow> set ns \<subseteq> set (getNeighbors p node) \<longrightarrow> pathsOk p startId (ida_steps s2)
      \<longrightarrow> searchNeighbors p goalId bound pth' g' node ns mn s2 = (r, s')
      \<longrightarrow> pathsOk p startId (ida_steps s'))"
proof (induction p goalId bound pth g s and p goalId bound pth' g' node ns mn s2
    rule: search_searchNeighbors.induct)
  case (1 p goalId bound pth g s)
  show ?case
  proof (intro allI impI)
    fix r s'
    assume call: "(pth, g) \<in> idaCalls p startId" and ok: "pathsOk p startId (ida_steps s)"
      and res: "search p goalId bound pth g s = (r, s')"
    let ?f = "g + heuristic p goalId (last pth)"
    note enter = idaEnter_paths [OF call ok, of goalId]
    show "pathsOk p startId (ida_steps s')"
    proof (cases "?f > bound")
      case True
      with res enter show ?thesis
        by (auto simp: Let_def)
    next
      case False
      show ?thesis
      proof (cases "last pth = goalId")
        case True
        with False res enter show ?thesis
          by (auto simp: Let_def)
      next
        case ne: False
        with False res have
          "searchNeighbors p goalId bound pth g (last pth) (getNeighbors p (last pth)) Infinity
             (idaEnter p goalId pth g s) = (r, s')"
          by (simp add: Let_def)
        with "1.IH" [OF refl refl refl _ ne] False call enter show ?thesis
          by auto
      qed
    qed
  qed
next
  case (2 p goalId bound pth g node mn s)
  then show ?case by auto
next
  case (3 p goalId bound pth g node nid cost ns mn s)
  show ?case
  proof (intro allI impI)
    fix r s'
    assume call: "(pth, g) \<in> idaCalls p startId" and node: "node = last pth"
      and sub: "set ((nid, cost) # ns) \<subseteq> set (getNeighbors p node)"
      and ok: "pathsOk p startId (ida_steps s)"
      and res: "searchNeighbors p goalId bound pth g node ((nid, cost) # ns) mn s = (r, s')"
    show "pathsOk p startId (ida_steps s')"
    proof (cases "nid \<in> set pth")
      case True
      with res have "searchNeighbors p goalId bound pth g node ns mn s = (r, s')"
        by simp
      with "3.IH"(3) True call node sub ok show ?thesis by auto
    next
      case False
      obtain r1 s1 where r1: "search p goalId bound (pth @ [nid]) (g + cost)
                (s\<lparr>ida_parentMap := (ida_parentMap s)(nid \<mapsto> node)\<rparr>) = (r1, s1)"
        by (cases "search p goalId bound (pth @ [nid]) (g + cost)
                (s\<lparr>ida_parentMap := (ida_parentMap s)(nid \<mapsto> node)\<rparr>)") auto
      have child: "(pth @ [nid], g + cost) \<in> idaCalls p startId"
        using call node sub False by (auto intro: idaCalls.child)
      have one: "pathsOk p startId (ida_steps s1)"
        using "3.IH"(1) [OF False] child r1 ok by auto
      show ?thesis
      proof (cases "found r1")
        case True
        with res r1 False one show ?thesis by simp
      next
        case nf1: False
        let ?mn = "if lessThreshold (t r1) mn then t r1 else mn"
        have "searchNeighbors p goalId bound pth g node ns ?mn s1 = (r, s')"
          using res r1 False nf1 by simp
        then show ?thesis
          using "3.IH"(2) [OF False r1 [symmetric] nf1] call node sub one by auto
      qed
    qed
  qed
qed

lemma idaLoop_paths:
  "pathsOk p startId (ida_steps s) \<Longrightarrow>
     pathsOk p startId (steps (idaLoop p startId goalId bound s tot))"
proof (induction p startId goalId bound s tot rule: idaLoop.induct)
  case (1 p startId goalId bound s tot)
  obtain r s' where res: "search p goalId bound [startId] 0 (s\<lparr>ida_visited := []\<rparr>) = (r, s')"
    by (cases "search p goalId bound [startId] 0 (s\<lparr>ida_visited := []\<rparr>)") auto
  from search_paths_aux(1) [of "[startId]" 0 p startId "s\<lparr>ida_visited := []\<rparr>" goalId bound]
    res "1.prems"
  have ok: "pathsOk p startId (ida_steps s')"
    by (auto intro: idaCalls.root)
  show ?case
  proof (cases "found r")
    case True
    show ?thesis
      unfolding idaLoop_found [OF res True] using ok by simp
  next
    case nf: False
    show ?thesis
    proof (cases "t r")
      case Infinity
      show ?thesis
        unfolding idaLoop_exhausted [OF res nf Infinity] using ok by (simp add: pathsOk_snoc)
    next
      case (Finite b)
      from "1.IH" [OF res [symmetric] refl nf Finite ok]
      show ?thesis
        unfolding idaLoop_deepen [OF res nf Finite] .
    qed
  qed
qed

lemma runIDAStar_paths:
  assumes "runIDAStar p = Some r" "x \<in> set (steps r)"
  shows "distinct (frontier x) \<and> length (frontier x) \<le> Suc (card (allIds p))"
proof -
  let ?s = "getStartId p"
  have init: "pathsOk p ?s [createStep 0 ?s [?s] vis pm g h f d fo pth]"
    for vis pm g h f d fo pth
    by (simp add: pathsOk_def reach_refl)
  have "r = idaLoop p ?s (getGoalId p) (numOf ([?s \<mapsto> heuristic p (getGoalId p) ?s] ?s))
      \<lparr>ida_gValues = [?s \<mapsto> 0], ida_hValues = [?s \<mapsto> heuristic p (getGoalId p) ?s],
       ida_fValues = [?s \<mapsto> numOf ([?s \<mapsto> heuristic p (getGoalId p) ?s] ?s)],
       ida_parentMap = Map.empty,
       ida_steps = [createStep 0 ?s [?s] [] Map.empty [?s \<mapsto> 0]
                      [?s \<mapsto> heuristic p (getGoalId p) ?s]
                      [?s \<mapsto> numOf ([?s \<mapsto> heuristic p (getGoalId p) ?s] ?s)]
                      False False None],
       ida_stepNumber = 1, ida_visited = []\<rparr> 0"
    using assms(1) unfolding runIDAStar_def Let_def by simp
  then have "pathsOk p ?s (steps r)"
    by (simp only: ) (rule idaLoop_paths, simp add: init)
  with assms(2) have d: "distinct (frontier x)" and sub: "set (frontier x) \<subseteq> reach p ?s"
    by (auto simp: pathsOk_def)
  have "length (frontier x) = card (set (frontier x))"
    using d by (simp add: distinct_card)
  also have "\<dots> \<le> card (insert ?s (allIds p))"
    using sub reach_allIds [of p ?s] finite_allIds [of p]
    by (intro card_mono) auto
  also have "\<dots> \<le> Suc (card (allIds p))"
    by (simp add: card_insert_if finite_allIds)
  finally show ?thesis using d by simp
qed

subsection \<open>The eight runs\<close>

lemma frontInv_init: "frontInv p s {s} [] Map.empty"
  by (rule frontInvI) simp_all

lemma traceInv_init:
  "traceInv [createStep 0 c fr vis pm g h f d fo pth] vis"
  by (simp add: traceInv_def)

lemma fhInv_init: "fhInv [createStep 0 c fr vis pm g h h d fo pth]"
  by (simp add: fhInv_def)

lemma runBFS_correct:
  "\<exists>r. runBFS p = Some r \<and> traceOk r \<and> outcomeOk p (getStartId p) (getGoalId p) r
       \<and> exhaustOk p (getStartId p) r"
  unfolding runBFS_def Let_def
  by (rule bfsLoop_correct [OF treeOk.none _ traceInv_init]) (simp add: frontInv_init)

lemma runDFS_correct:
  "\<exists>r. runDFS p = Some r \<and> traceOk r \<and> outcomeOk p (getStartId p) (getGoalId p) r
       \<and> exhaustOk p (getStartId p) r"
  unfolding runDFS_def Let_def
  by (rule dfsLoop_correct [OF treeOk.none _ traceInv_init]) (simp add: frontInv_init)

lemma runUCS_correct:
  "\<exists>r. runUCS p = Some r \<and> traceOk r \<and> outcomeOk p (getStartId p) (getGoalId p) r
       \<and> exhaustOk p (getStartId p) r"
  unfolding runUCS_def Let_def
  by (rule ucsLoop_correct [OF treeOk.none _ traceInv_init]) (simp_all add: frontInv_init)

lemma runGreedy_correct:
  "\<exists>r. runGreedy p = Some r \<and> traceOk r \<and> outcomeOk p (getStartId p) (getGoalId p) r
       \<and> exhaustOk p (getStartId p) r \<and> fhInv (steps r)"
  unfolding runGreedy_def Let_def
  by (rule greedyLoop_correct [OF treeOk.none _ traceInv_init fhInv_init])
    (simp add: frontInv_init)

lemma runAStar_correct:
  "\<exists>r. runAStar p = Some r \<and> traceOk r \<and> outcomeOk p (getStartId p) (getGoalId p) r
       \<and> exhaustOk p (getStartId p) r"
  unfolding runAStar_def Let_def
  by (rule astarLoop_correct [OF treeOk.none _ traceInv_init]) (simp_all add: frontInv_init)

lemma runHillClimbing_correct:
  "\<exists>r. runHillClimbing p = Some r \<and> traceOk r \<and> outcomeOk p (getStartId p) (getGoalId p) r
       \<and> fhInv (steps r)"
  unfolding runHillClimbing_def Let_def
  by (rule hillLoop_correct [OF treeOk.root _ traceInv_init fhInv_init]) simp_all

lemma runBeamSearch_correct:
  "\<exists>r. runBeamSearch p w = Some r \<and> traceOk r \<and> outcomeOk p (getStartId p) (getGoalId p) r
       \<and> fhInv (steps r)"
  unfolding runBeamSearch_def Let_def
  by (rule beamLoop_correct [OF treeOk.root _ _ traceInv_init fhInv_init]) simp_all

lemma runIDAStar_correct:
  "\<exists>r. runIDAStar p = Some r \<and> outcomeOk p (getStartId p) (getGoalId p) r"
  unfolding runIDAStar_def Let_def
  using idaLoop_correct by simp

text \<open>What each of the eight selectors runs.\<close>

lemma runAlgorithm_simps:
  "runAlgorithm ''bfs'' p = map_option Inr (runBFS p)"
  "runAlgorithm ''dfs'' p = map_option Inr (runDFS p)"
  "runAlgorithm ''ucs'' p = map_option Inr (runUCS p)"
  "runAlgorithm ''greedy'' p = map_option Inr (runGreedy p)"
  "runAlgorithm ''astar'' p = map_option Inr (runAStar p)"
  "runAlgorithm ''hillClimbing'' p = map_option Inr (runHillClimbing p)"
  "runAlgorithm ''beamSearch'' p = map_option Inr (runBeamSearch p 2)"
  "runAlgorithm ''idaStar'' p = map_option Inr (runIDAStar p)"
  by (simp_all add: runAlgorithm_def)

lemma algorithmTypes_cases:
  assumes "alg \<in> set algorithmTypes"
  obtains "alg = ''bfs''" | "alg = ''dfs''" | "alg = ''ucs''" | "alg = ''greedy''"
  | "alg = ''astar''" | "alg = ''hillClimbing''" | "alg = ''beamSearch''" | "alg = ''idaStar''"
proof -
  from assms have "alg = ''bfs'' \<or> alg = ''dfs'' \<or> alg = ''ucs'' \<or> alg = ''greedy''
      \<or> alg = ''astar'' \<or> alg = ''hillClimbing'' \<or> alg = ''beamSearch'' \<or> alg = ''idaStar''"
    unfolding algorithmTypes_def by (simp only: set_simps insert_iff empty_iff simp_thms)
  then show ?thesis
    by (elim disjE)
      (erule that(1), erule that(2), erule that(3), erule that(4), erule that(5),
       erule that(6), erule that(7), erule that(8))
qed

lemma runAlgorithm_cases:
  assumes "alg \<in> set algorithmTypes"
  obtains "alg = ''bfs''" "runAlgorithm alg p = map_option Inr (runBFS p)"
  | "alg = ''dfs''" "runAlgorithm alg p = map_option Inr (runDFS p)"
  | "alg = ''ucs''" "runAlgorithm alg p = map_option Inr (runUCS p)"
  | "alg = ''greedy''" "runAlgorithm alg p = map_option Inr (runGreedy p)"
  | "alg = ''astar''" "runAlgorithm alg p = map_option Inr (runAStar p)"
  | "alg = ''hillClimbing''" "runAlgorithm alg p = map_option Inr (runHillClimbing p)"
  | "alg = ''beamSearch''" "runAlgorithm alg p = map_option Inr (runBeamSearch p 2)"
  | "alg = ''idaStar''" "runAlgorithm alg p = map_option Inr (runIDAStar p)"
  using assms
proof (cases rule: algorithmTypes_cases)
  case 1
  show ?thesis by (rule that(1) [OF 1]) (simp only: 1 runAlgorithm_simps(1))
next
  case 2
  show ?thesis by (rule that(2) [OF 2]) (simp only: 2 runAlgorithm_simps(2))
next
  case 3
  show ?thesis by (rule that(3) [OF 3]) (simp only: 3 runAlgorithm_simps(3))
next
  case 4
  show ?thesis by (rule that(4) [OF 4]) (simp only: 4 runAlgorithm_simps(4))
next
  case 5
  show ?thesis by (rule that(5) [OF 5]) (simp only: 5 runAlgorithm_simps(5))
next
  case 6
  show ?thesis by (rule that(6) [OF 6]) (simp only: 6 runAlgorithm_simps(6))
next
  case 7
  show ?thesis by (rule that(7) [OF 7]) (simp only: 7 runAlgorithm_simps(7))
next
  case 8
  show ?thesis by (rule that(8) [OF 8]) (simp only: 8 runAlgorithm_simps(8))
qed

lemma runAlgorithm_outcome:
  assumes "alg \<in> set algorithmTypes"
  shows "\<exists>r. runAlgorithm alg p = Some (Inr r) \<and> outcomeOk p (getStartId p) (getGoalId p) r"
  using assms
proof (cases rule: runAlgorithm_cases [where p = p])
  case 1 with runBFS_correct [of p] show ?thesis by auto
next
  case 2 with runDFS_correct [of p] show ?thesis by auto
next
  case 3 with runUCS_correct [of p] show ?thesis by auto
next
  case 4 with runGreedy_correct [of p] show ?thesis by auto
next
  case 5 with runAStar_correct [of p] show ?thesis by auto
next
  case 6 with runHillClimbing_correct [of p] show ?thesis by auto
next
  case 7 with runBeamSearch_correct [of p 2] show ?thesis by auto
next
  case 8 with runIDAStar_correct [of p] show ?thesis by auto
qed


lemma runAlgorithm_exhaust:
  assumes "alg \<in> {''bfs'', ''dfs'', ''ucs'', ''greedy'', ''astar''}"
  shows "\<exists>r. runAlgorithm alg p = Some (Inr r) \<and> exhaustOk p (getStartId p) r"
proof -
  have "alg \<in> set algorithmTypes" using assms by (auto simp: algorithmTypes_def)
  then show ?thesis
  proof (cases rule: runAlgorithm_cases [where p = p])
    case 1 with runBFS_correct [of p] show ?thesis by auto
  next
    case 2 with runDFS_correct [of p] show ?thesis by auto
  next
    case 3 with runUCS_correct [of p] show ?thesis by auto
  next
    case 4 with runGreedy_correct [of p] show ?thesis by auto
  next
    case 5 with runAStar_correct [of p] show ?thesis by auto
  qed (use assms in auto)
qed

lemma runAlgorithm_fh:
  assumes "alg \<in> {''greedy'', ''hillClimbing'', ''beamSearch''}"
  shows "\<exists>r. runAlgorithm alg p = Some (Inr r) \<and> fhInv (steps r)"
proof -
  have "alg \<in> set algorithmTypes" using assms by (auto simp: algorithmTypes_def)
  then show ?thesis
  proof (cases rule: runAlgorithm_cases [where p = p])
    case 4 with runGreedy_correct [of p] show ?thesis by auto
  next
    case 6 with runHillClimbing_correct [of p] show ?thesis by auto
  next
    case 7 with runBeamSearch_correct [of p 2] show ?thesis by auto
  qed (use assms in auto)
qed

lemma runAlgorithm_known:
  assumes "runAlgorithm alg p = Some (Inr r)"
  shows "alg \<in> set algorithmTypes"
proof (rule ccontr)
  assume "alg \<notin> set algorithmTypes"
  then have "runAlgorithm alg p = Some (Inl (UnknownAlgorithm alg))"
    by (simp add: runAlgorithm_def algorithmTypes_def)
  with assms show False by simp
qed

section \<open>Path cost\<close>

text \<open>
  \<open>costAlong p pth c\<close>: \<open>c\<close> is the sum, along the path, of a cost the neighbor resolver
  lists for each consecutive pair. Uniform-cost search and A* keep \<open>costInv\<close>: the start
  has the g-value 0, and the g-value of a node with a parent is the g-value of the parent
  plus a cost the resolver lists for the node among the neighbors of the parent. The
  g-value and the parent of a node change only while the node is unvisited, and a parent
  is visited.
\<close>

inductive costAlong :: "problem \<Rightarrow> string list \<Rightarrow> real \<Rightarrow> bool"
  for p :: problem
where
  single: "costAlong p [a] 0"
| step: "costAlong p pth c \<Longrightarrow> pth \<noteq> [] \<Longrightarrow> (b, w) \<in> set (getNeighbors p (last pth))
     \<Longrightarrow> costAlong p (pth @ [b]) (c + w)"

definition costInv ::
  "problem \<Rightarrow> string \<Rightarrow> (string \<rightharpoonup> string) \<Rightarrow> (string \<rightharpoonup> real) \<Rightarrow> string list \<Rightarrow> bool"
where
  "costInv p s pm g vis =
     (g s = Some 0
      \<and> (\<forall>v u. pm v = Some u \<longrightarrow> u \<in> set vis
             \<and> (\<exists>w. (v, w) \<in> set (getNeighbors p u) \<and> g v = Some (numOf (g u) + w))))"

lemma costInv_mono: "costInv p s pm g vis \<Longrightarrow> set vis \<subseteq> set vis' \<Longrightarrow> costInv p s pm g vis'"
  unfolding costInv_def by blast

lemma costInv_init: "costInv p s Map.empty [s \<mapsto> 0] vis"
  by (simp add: costInv_def)

lemma costInv_update:
  assumes inv: "costInv p s pm g vis" and c: "c \<in> set vis" and s: "s \<in> set vis"
    and nid: "nid \<notin> set vis" and e: "(nid, cost) \<in> set (getNeighbors p c)"
  shows "costInv p s (pm(nid \<mapsto> c)) (g(nid \<mapsto> numOf (g c) + cost)) vis"
proof -
  let ?g = "g(nid \<mapsto> numOf (g c) + cost)"
  have 1: "?g s = Some 0"
    using inv s nid by (auto simp: costInv_def)
  have 2: "u \<in> set vis \<and> (\<exists>w. (v, w) \<in> set (getNeighbors p u) \<and> ?g v = Some (numOf (?g u) + w))"
    if pm: "(pm(nid \<mapsto> c)) v = Some u" for v u
  proof (cases "v = nid")
    case True
    then have "u = c" using pm by simp
    moreover have "?g c = g c" using c nid by auto
    ultimately show ?thesis using True c e by auto
  next
    case False
    then have old: "pm v = Some u" using pm by simp
    with inv have u: "u \<in> set vis"
      and "\<exists>w. (v, w) \<in> set (getNeighbors p u) \<and> g v = Some (numOf (g u) + w)"
      by (auto simp: costInv_def)
    moreover have "?g u = g u" using u nid by auto
    moreover have "?g v = g v" using False by simp
    ultimately show ?thesis by simp
  qed
  from 1 2 show ?thesis
    unfolding costInv_def by blast
qed

lemma ucsExpand_cost:
  "ucsExpand ns c vis pq pm g = (pq', pm', g') \<Longrightarrow> costInv p s pm g vis \<Longrightarrow> c \<in> set vis \<Longrightarrow>
   s \<in> set vis \<Longrightarrow> set ns \<subseteq> set (getNeighbors p c) \<Longrightarrow> costInv p s pm' g' vis"
proof (induction ns arbitrary: pq pm g)
  case Nil
  then show ?case by simp
next
  case (Cons e ns)
  obtain nid cost where e: "e = (nid, cost)" by (cases e) auto
  let ?newG = "numOf (g c) + cost"
  have sub: "set ns \<subseteq> set (getNeighbors p c)" "(nid, cost) \<in> set (getNeighbors p c)"
    using Cons.prems(5) e by auto
  show ?case
  proof (cases "nid \<notin> set vis \<and> (g nid = None \<or> ?newG < numOf (g nid))")
    case True
    have run: "ucsExpand ns c vis (enqueue nid ?newG pq) (pm(nid \<mapsto> c)) (g(nid \<mapsto> ?newG))
                 = (pq', pm', g')"
      using Cons.prems(1) True e by (simp add: Let_def)
    have "costInv p s (pm(nid \<mapsto> c)) (g(nid \<mapsto> ?newG)) vis"
      using Cons.prems(2,3,4) _ sub(2) by (rule costInv_update) (use True in simp)
    from Cons.IH [OF run this Cons.prems(3,4) sub(1)] show ?thesis .
  next
    case False
    then have "ucsExpand ns c vis pq pm g = (pq', pm', g')"
      using Cons.prems(1) e by (auto simp: Let_def split: if_splits)
    from Cons.IH [OF this Cons.prems(2,3,4) sub(1)] show ?thesis .
  qed
qed

lemma astarExpand_cost:
  "astarExpand p goalId ns c vis pq pm g h f = (pq', pm', g', h', f') \<Longrightarrow> costInv p s pm g vis \<Longrightarrow>
   c \<in> set vis \<Longrightarrow> s \<in> set vis \<Longrightarrow> set ns \<subseteq> set (getNeighbors p c) \<Longrightarrow> costInv p s pm' g' vis"
proof (induction ns arbitrary: pq pm g h f)
  case Nil
  then show ?case by simp
next
  case (Cons e ns)
  obtain nid cost where e: "e = (nid, cost)" by (cases e) auto
  let ?newG = "numOf (g c) + cost"
  let ?hv = "heuristic p goalId nid"
  have sub: "set ns \<subseteq> set (getNeighbors p c)" "(nid, cost) \<in> set (getNeighbors p c)"
    using Cons.prems(5) e by auto
  show ?case
  proof (cases "nid \<notin> set vis \<and> (g nid = None \<or> ?newG < numOf (g nid))")
    case True
    have run: "astarExpand p goalId ns c vis (enqueue nid (?newG + ?hv) pq) (pm(nid \<mapsto> c))
                 (g(nid \<mapsto> ?newG)) (h(nid \<mapsto> ?hv)) (f(nid \<mapsto> ?newG + ?hv))
                 = (pq', pm', g', h', f')"
      using Cons.prems(1) True e by (simp add: Let_def)
    have "costInv p s (pm(nid \<mapsto> c)) (g(nid \<mapsto> ?newG)) vis"
      using Cons.prems(2,3,4) _ sub(2) by (rule costInv_update) (use True in simp)
    from Cons.IH [OF run this Cons.prems(3,4) sub(1)] show ?thesis .
  next
    case False
    then have "astarExpand p goalId ns c vis pq pm g h f = (pq', pm', g', h', f')"
      using Cons.prems(1) e by (auto simp: Let_def split: if_splits)
    from Cons.IH [OF this Cons.prems(2,3,4) sub(1)] show ?thesis .
  qed
qed

lemma tree_cost:
  "treeOk p s pm vis \<Longrightarrow> costInv p s pm g vis0 \<Longrightarrow> [] \<notin> set vis \<Longrightarrow> n \<in> set vis \<Longrightarrow>
     \<exists>pth. reconstructPathLoop pm n acc = Some (s, tl pth @ acc) \<and> pth \<noteq> [] \<and> hd pth = s
        \<and> last pth = n \<and> g n \<noteq> None \<and> costAlong p pth (numOf (g n))"
proof (induction arbitrary: n acc rule: treeOk.induct)
  case none
  then show ?case by simp
next
  case root
  then have "reconstructPathLoop pm n acc = Some (s, tl [s] @ acc)"
    by (simp add: reconstructPathLoop.simps)
  moreover have "g s = Some 0" using root.prems(1) by (simp add: costInv_def)
  moreover have "costAlong p [s] 0" by (rule costAlong.single)
  ultimately show ?case
    using root by (intro exI [of _ "[s]"]) (simp add: numOf_def)
next
  case (node vis c m)
  show ?case
  proof (cases "n = c")
    case False
    with node.prems node.IH [of n acc] show ?thesis by auto
  next
    case True
    have "c \<noteq> []" using node.prems by auto
    then have eq: "reconstructPathLoop pm n acc = reconstructPathLoop pm m (c # acc)"
      using node True by (subst reconstructPathLoop.simps) simp
    from node.IH [of m "c # acc"] node.prems node.hyps obtain pth where
      pth: "reconstructPathLoop pm m (c # acc) = Some (s, tl pth @ c # acc)" "pth \<noteq> []"
        "hd pth = s" "last pth = m" "costAlong p pth (numOf (g m))"
      by auto
    from node.prems(1) node.hyps(4) obtain w where
      w: "(c, w) \<in> set (getNeighbors p m)" "g c = Some (numOf (g m) + w)"
      by (auto simp: costInv_def)
    have "costAlong p (pth @ [c]) (numOf (g m) + w)"
      using pth(5,2) w(1) unfolding pth(4) [symmetric] by (rule costAlong.step)
    then have "costAlong p (pth @ [c]) (numOf (g n))"
      using w(2) True by (simp add: numOf_def)
    moreover have "reconstructPathLoop pm n acc = Some (s, tl (pth @ [c]) @ acc)"
      using eq pth(1,2) by simp
    ultimately show ?thesis
      using pth(2,3) True w(2) by (intro exI [of _ "pth @ [c]"]) simp
  qed
qed

lemma reconstructPath_cost:
  assumes "treeOk p s pm vis" "costInv p s pm g vis0" "[] \<notin> set vis" "n \<in> set vis"
    "reconstructPath pm n = Some pth"
  shows "\<exists>c. g n = Some c \<and> costAlong p pth c"
proof -
  from tree_cost [OF assms(1-4), of "[]"] obtain q where
    q: "reconstructPathLoop pm n [] = Some (s, tl q)" "q \<noteq> []" "hd q = s" "last q = n"
      "g n \<noteq> None" "costAlong p q (numOf (g n))"
    by auto
  have "s \<in> set vis"
    using treeOk_hd [OF assms(1)] assms(4) by (metis empty_iff hd_in_set list.set(1))
  then have "s \<noteq> []" using assms(3) by auto
  then have "pth = s # tl q"
    using assms(5) q(1) by (simp add: reconstructPath_def)
  then have "pth = q" using q(2,3) by (cases q) auto
  with q(5,6) show ?thesis by (auto simp: numOf_def)
qed

lemma found_cost:
  assumes tree: "treeOk p s pm vis" and inv: "costInv p s pm g vis0" and ne: "[] \<notin> reach p s"
    and goal: "goalId \<in> set vis"
    and res: "map_option (\<lambda>pth. foundResult alg p (st pth) (Some pth) (g goalId) k per)
                (reconstructPath pm goalId) = Some r"
  shows "\<exists>pth c. finalPath r = Some pth \<and> pathCost r = Some c \<and> costAlong p pth c"
proof -
  from res obtain pth where pth: "reconstructPath pm goalId = Some pth"
    and r: "r = foundResult alg p (st pth) (Some pth) (g goalId) k per"
    by auto
  have "[] \<notin> set vis" using treeOk_reach [OF tree] ne by auto
  from reconstructPath_cost [OF tree inv this goal pth] r show ?thesis by auto
qed

lemma ucsLoop_cost:
  "treeOk p s pm vis \<Longrightarrow> frontInv p s (fst ` set pq) vis pm \<Longrightarrow>
   dom g \<subseteq> set vis \<union> fst ` set pq \<Longrightarrow> costInv p s pm g vis \<Longrightarrow> [] \<notin> reach p s \<Longrightarrow>
   ucsLoop p goalId pq vis pm g st n = Some r \<Longrightarrow> success r \<Longrightarrow>
     \<exists>pth c. finalPath r = Some pth \<and> pathCost r = Some c \<and> costAlong p pth c"
proof (induction p goalId pq vis pm g st n rule: ucsLoop.induct)
  case (1 p goalId vis pm g st n)
  then show ?case by auto
next
  case (2 p goalId current pr pq vis pm g st n)
  let ?F = "fst ` set ((current, pr) # pq)"
  have cF: "current \<in> ?F" "fst ` set pq \<subseteq> ?F" "?F \<subseteq> insert current (fst ` set pq)"
    by auto
  show ?case
  proof (cases "current \<in> set vis")
    case True
    have "frontInv p s (fst ` set pq) vis pm"
      using frontInv_skip [OF "2.prems"(2) cF(2,3) True] .
    moreover have "dom g \<subseteq> set vis \<union> fst ` set pq"
      using "2.prems"(3) True by auto
    moreover have "ucsLoop p goalId pq vis pm g st n = Some r"
      using "2.prems"(6) unfolding ucsLoop_skip [OF True] .
    ultimately show ?thesis
      using "2.IH"(1) [OF True "2.prems"(1) _ _ "2.prems"(4,5) _ "2.prems"(7)] by blast
  next
    case False
    have tree': "treeOk p s pm (vis @ [current])"
      using tree_visit [OF "2.prems"(1,2) cF(1) False] .
    have inv': "costInv p s pm g (vis @ [current])"
      using "2.prems"(4) by (rule costInv_mono) auto
    show ?thesis
    proof (cases "current = goalId")
      case True
      have goal: "goalId \<in> set (vis @ [current])" using True by simp
      from "2.prems"(6) show ?thesis
        unfolding ucsLoop_found [OF False True]
        by (rule found_cost [OF tree' inv' "2.prems"(5) goal])
    next
      case ne: False
      obtain pq' pm' g' where ex:
        "ucsExpand (getNeighbors p current) current (vis @ [current]) pq pm g = (pq', pm', g')"
        by (cases "ucsExpand (getNeighbors p current) current (vis @ [current]) pq pm g") auto
      have "dom g \<subseteq> set (vis @ [current]) \<union> fst ` set pq"
        using "2.prems"(3) by auto
      from ucsExpand_expansion [OF ex this]
      have exp: "expansion (neighborIds p current) current (set (vis @ [current])) (fst ` set pq) pm
              (fst ` set pq') pm'"
        and dom: "dom g' \<subseteq> set (vis @ [current]) \<union> fst ` set pq'"
        unfolding neighborIds_def by blast+
      from expand_preserves [OF tree' "2.prems"(2) cF exp]
      have inv: "treeOk p s pm' (vis @ [current])"
          "frontInv p s (fst ` set pq') (vis @ [current]) pm'"
        by auto
      have "s \<in> set (vis @ [current])"
        using treeOk_hd [OF tree'] hd_in_set [of "vis @ [current]"] by auto
      from ucsExpand_cost [OF ex inv' _ this]
      have cost: "costInv p s pm' g' (vis @ [current])" by simp
      have run: "ucsLoop p goalId pq' (vis @ [current]) pm' g'
         (st @ [createStep n current (toArray pq') (vis @ [current]) pm' g' Map.empty Map.empty
                  False False None])
         (n + 1) = Some r"
        using "2.prems"(6) unfolding ucsLoop_expand [OF False ne ex] .
      from "2.IH"(2) [OF False refl ne ex [symmetric] refl refl inv dom cost "2.prems"(5) run
          "2.prems"(7)]
      show ?thesis .
    qed
  qed
qed

lemma astarLoop_cost:
  "treeOk p s pm vis \<Longrightarrow> frontInv p s (fst ` set pq) vis pm \<Longrightarrow>
   dom g \<subseteq> set vis \<union> fst ` set pq \<Longrightarrow> costInv p s pm g vis \<Longrightarrow> [] \<notin> reach p s \<Longrightarrow>
   astarLoop p goalId pq vis pm g h f st n = Some r \<Longrightarrow> success r \<Longrightarrow>
     \<exists>pth c. finalPath r = Some pth \<and> pathCost r = Some c \<and> costAlong p pth c"
proof (induction p goalId pq vis pm g h f st n rule: astarLoop.induct)
  case (1 p goalId vis pm g h f st n)
  then show ?case by auto
next
  case (2 p goalId current pr pq vis pm g h f st n)
  let ?F = "fst ` set ((current, pr) # pq)"
  have cF: "current \<in> ?F" "fst ` set pq \<subseteq> ?F" "?F \<subseteq> insert current (fst ` set pq)"
    by auto
  show ?case
  proof (cases "current \<in> set vis")
    case True
    have "frontInv p s (fst ` set pq) vis pm"
      using frontInv_skip [OF "2.prems"(2) cF(2,3) True] .
    moreover have "dom g \<subseteq> set vis \<union> fst ` set pq"
      using "2.prems"(3) True by auto
    moreover have "astarLoop p goalId pq vis pm g h f st n = Some r"
      using "2.prems"(6) unfolding astarLoop_skip [OF True] .
    ultimately show ?thesis
      using "2.IH"(1) [OF True "2.prems"(1) _ _ "2.prems"(4,5) _ "2.prems"(7)] by blast
  next
    case False
    have tree': "treeOk p s pm (vis @ [current])"
      using tree_visit [OF "2.prems"(1,2) cF(1) False] .
    have inv': "costInv p s pm g (vis @ [current])"
      using "2.prems"(4) by (rule costInv_mono) auto
    show ?thesis
    proof (cases "current = goalId")
      case True
      have goal: "goalId \<in> set (vis @ [current])" using True by simp
      from "2.prems"(6) show ?thesis
        unfolding astarLoop_found [OF False True]
        by (rule found_cost [OF tree' inv' "2.prems"(5) goal])
    next
      case ne: False
      obtain pq' pm' g' h' f' where ex:
        "astarExpand p goalId (getNeighbors p current) current (vis @ [current]) pq pm g h f
           = (pq', pm', g', h', f')"
        by (cases "astarExpand p goalId (getNeighbors p current) current (vis @ [current])
                     pq pm g h f") auto
      have "dom g \<subseteq> set (vis @ [current]) \<union> fst ` set pq"
        using "2.prems"(3) by auto
      from astarExpand_expansion [OF ex this]
      have exp: "expansion (neighborIds p current) current (set (vis @ [current])) (fst ` set pq) pm
              (fst ` set pq') pm'"
        and dom: "dom g' \<subseteq> set (vis @ [current]) \<union> fst ` set pq'"
        unfolding neighborIds_def by blast+
      from expand_preserves [OF tree' "2.prems"(2) cF exp]
      have inv: "treeOk p s pm' (vis @ [current])"
          "frontInv p s (fst ` set pq') (vis @ [current]) pm'"
        by auto
      have "s \<in> set (vis @ [current])"
        using treeOk_hd [OF tree'] hd_in_set [of "vis @ [current]"] by auto
      from astarExpand_cost [OF ex inv' _ this]
      have cost: "costInv p s pm' g' (vis @ [current])" by simp
      have run: "astarLoop p goalId pq' (vis @ [current]) pm' g' h' f'
         (st @ [createStep n current (toArray pq') (vis @ [current]) pm' g' h' f'
                  False False None])
         (n + 1) = Some r"
        using "2.prems"(6) unfolding astarLoop_expand [OF False ne ex] .
      from "2.IH"(2) [OF False refl ne ex [symmetric] refl refl refl refl inv dom cost
          "2.prems"(5) run "2.prems"(7)]
      show ?thesis .
    qed
  qed
qed

lemma bfsLoop_cost:
  "bfsLoop p goalId queue vis pm st n = Some r \<Longrightarrow> success r \<Longrightarrow>
     \<exists>pth. finalPath r = Some pth \<and> pathCost r = Some (real (length pth) - 1)"
proof (induction p goalId queue vis pm st n rule: bfsLoop.induct)
  case (1 p goalId vis pm st n)
  then show ?case by auto
next
  case (2 p goalId current queue vis pm st n)
  show ?case
  proof (cases "current \<in> set vis")
    case True
    with 2 show ?thesis by simp
  next
    case False
    show ?thesis
    proof (cases "current = goalId")
      case True
      from "2.prems"(1) show ?thesis
        unfolding bfsLoop_found [OF False True] by auto
    next
      case ne: False
      obtain queue' pm' where ex:
        "bfsExpand (getNeighbors p current) current (vis @ [current]) queue pm = (queue', pm')"
        by (cases "bfsExpand (getNeighbors p current) current (vis @ [current]) queue pm") auto
      from "2.prems"(1) have run: "bfsLoop p goalId queue' (vis @ [current]) pm'
         (st @ [createStep n current queue' (vis @ [current]) pm' Map.empty Map.empty Map.empty
                  False False None])
         (n + 1) = Some r"
        unfolding bfsLoop_expand [OF False ne ex] .
      from "2.IH"(2) [OF False refl ne ex [symmetric] refl run "2.prems"(2)]
      show ?thesis .
    qed
  qed
qed

lemma runUCS_cost:
  assumes "runUCS p = Some r" "success r" "[] \<notin> reach p (getStartId p)"
  shows "\<exists>pth c. finalPath r = Some pth \<and> pathCost r = Some c \<and> costAlong p pth c"
  using assms(1) unfolding runUCS_def Let_def
  by (rule ucsLoop_cost [OF treeOk.none _ _ costInv_init assms(3) _ assms(2), rotated 2])
    (simp_all add: frontInv_init)

lemma runAStar_cost:
  assumes "runAStar p = Some r" "success r" "[] \<notin> reach p (getStartId p)"
  shows "\<exists>pth c. finalPath r = Some pth \<and> pathCost r = Some c \<and> costAlong p pth c"
  using assms(1) unfolding runAStar_def Let_def
  by (rule astarLoop_cost [OF treeOk.none _ _ costInv_init assms(3) _ assms(2), rotated 2])
    (simp_all add: frontInv_init)

lemma runBFS_cost:
  assumes "runBFS p = Some r" "success r"
  shows "\<exists>pth. finalPath r = Some pth \<and> pathCost r = Some (real (length pth) - 1)"
  using assms unfolding runBFS_def Let_def by (rule bfsLoop_cost)

text \<open>Where the resolver lists no neighbor twice, this sum is the one \<open>sumPathCost\<close> computes.\<close>

lemma find_entry:
  "distinct (map fst xs) \<Longrightarrow> (b, w) \<in> set xs \<Longrightarrow> find (\<lambda>(nid, cost). nid = b) xs = Some (b, w)"
  by (induction xs) force+

lemma sumPathCost_snoc:
  "pth \<noteq> [] \<Longrightarrow> (b, w) \<in> set (getNeighbors p (last pth)) \<Longrightarrow>
   distinct (map fst (getNeighbors p (last pth))) \<Longrightarrow>
     sumPathCost p (pth @ [b]) acc = sumPathCost p pth acc + w"
proof (induction pth arbitrary: acc)
  case Nil
  then show ?case by simp
next
  case (Cons a rest)
  show ?case
  proof (cases rest)
    case Nil
    with Cons.prems find_entry [of "getNeighbors p a" b w] show ?thesis by simp
  next
    case (Cons b' rest')
    with Cons.prems Cons.IH show ?thesis
      by (auto split: option.splits)
  qed
qed

lemma costAlong_sum:
  "costAlong p pth c \<Longrightarrow> (\<forall>n \<in> set pth. distinct (map fst (getNeighbors p n))) \<Longrightarrow>
     sumPathCost p pth 0 = c"
proof (induction rule: costAlong.induct)
  case (single a)
  show ?case by simp
next
  case (step pth c b w)
  have "last pth \<in> set pth" using step.hyps(2) by simp
  then have "distinct (map fst (getNeighbors p (last pth)))"
    using step.prems by auto
  from sumPathCost_snoc [OF step.hyps(2,3) this, of 0] step show ?case by simp
qed

section \<open>Start equal to goal\<close>

text \<open>With a non-empty start identifier that is also the goal, every run returns at its first
  test of the goal.\<close>

lemma reconstructPath_start: "s \<noteq> [] \<Longrightarrow> reconstructPath Map.empty s = Some [s]"
  by (simp add: reconstructPath_def reconstructPathLoop.simps)

lemma runBFS_same:
  assumes "getStartId p = getGoalId p" "getStartId p \<noteq> []"
  shows "\<exists>r. runBFS p = Some r \<and> success r \<and> finalPath r = Some [getStartId p]
           \<and> pathCost r = Some 0 \<and> nodesVisited r = 1 \<and> length (steps r) \<le> 2"
  using assms by (simp add: runBFS_def Let_def reconstructPath_start)

lemma runDFS_same:
  assumes "getStartId p = getGoalId p" "getStartId p \<noteq> []"
  shows "\<exists>r. runDFS p = Some r \<and> success r \<and> finalPath r = Some [getStartId p]
           \<and> pathCost r = Some 0 \<and> nodesVisited r = 1 \<and> length (steps r) \<le> 2"
  using assms by (simp add: runDFS_def Let_def dfsLoop_found reconstructPath_start)

lemma runUCS_same:
  assumes "getStartId p = getGoalId p" "getStartId p \<noteq> []"
  shows "\<exists>r. runUCS p = Some r \<and> success r \<and> finalPath r = Some [getStartId p]
           \<and> pathCost r = Some 0 \<and> nodesVisited r = 1 \<and> length (steps r) \<le> 2"
  using assms by (simp add: runUCS_def Let_def enqueue_def reconstructPath_start)

lemma runGreedy_same:
  assumes "getStartId p = getGoalId p" "getStartId p \<noteq> []"
  shows "\<exists>r. runGreedy p = Some r \<and> success r \<and> finalPath r = Some [getStartId p]
           \<and> pathCost r = Some 0 \<and> nodesVisited r = 1 \<and> length (steps r) \<le> 2"
  using assms by (simp add: runGreedy_def Let_def enqueue_def reconstructPath_start)

lemma runAStar_same:
  assumes "getStartId p = getGoalId p" "getStartId p \<noteq> []"
  shows "\<exists>r. runAStar p = Some r \<and> success r \<and> finalPath r = Some [getStartId p]
           \<and> pathCost r = Some 0 \<and> nodesVisited r = 1 \<and> length (steps r) \<le> 2"
  using assms by (simp add: runAStar_def Let_def enqueue_def reconstructPath_start)

lemma runHillClimbing_same:
  assumes "getStartId p = getGoalId p" "getStartId p \<noteq> []"
  shows "\<exists>r. runHillClimbing p = Some r \<and> success r \<and> finalPath r = Some [getStartId p]
           \<and> pathCost r = Some 0 \<and> nodesVisited r = 1 \<and> length (steps r) \<le> 2"
  using assms by (simp add: runHillClimbing_def Let_def hillLoop_found reconstructPath_start)

lemma runBeamSearch_same:
  assumes "getStartId p = getGoalId p" "getStartId p \<noteq> []"
  shows "\<exists>r. runBeamSearch p w = Some r \<and> success r \<and> finalPath r = Some [getStartId p]
           \<and> pathCost r = Some 0 \<and> nodesVisited r = 1 \<and> length (steps r) \<le> 2"
proof -
  let ?s = "getGoalId p"
  have "beamGather p ?s [?s] [?s] h g [] = (True, h, g, [])" for h g
    by simp
  from beamLoop_found [OF _ this] show ?thesis
    using assms by (simp add: runBeamSearch_def Let_def reconstructPath_start)
qed

lemma runIDAStar_same:
  assumes "getStartId p = getGoalId p" "getStartId p \<noteq> []"
  shows "\<exists>r. runIDAStar p = Some r \<and> success r \<and> finalPath r = Some [getStartId p]
           \<and> pathCost r = Some 0 \<and> nodesVisited r = 1 \<and> length (steps r) \<le> 2"
proof -
  let ?s = "getGoalId p"
  have eq: "search p ?s (heuristic p ?s ?s) [?s] 0 S =
      (\<lparr>found = True, t = Finite (heuristic p ?s ?s), res_path = Some [?s], res_cost = Some 0,
        res_visited = length (ida_visited (idaEnter p ?s [?s] 0 S))\<rparr>, idaEnter p ?s [?s] 0 S)"
    for S
    by (simp add: Let_def)
  show ?thesis
    using assms
    by (simp add: runIDAStar_def Let_def numOf_def idaLoop_found [OF eq] idaEnter_def setAdd_def)
qed

section \<open>Runs on the example problems\<close>

text \<open>
  Identifiers of grid cells are never the empty string, the one identifier
  \<^verbatim>\<open>reconstructPath\<close> reads as falsy. The runs below are evaluated on the example
  problems; on the walled grid the component of the start is computed by hand from the
  neighbor lists.
\<close>

lemma show_nat_nonempty: "show_nat n \<noteq> []"
  by (subst show_nat.simps) simp

lemma gridCellToId_nonempty: "gridCellToId r c \<noteq> []"
  by (simp add: gridCellToId_def)

lemma grid_ids_nonempty: "[] \<notin> insert (getStartId (Grid g)) (allIds (Grid g))"
  using gridCellToId_nonempty [symmetric] by auto

lemma reach_nonempty:
  "[] \<notin> insert s (allIds p) \<Longrightarrow> [] \<notin> reach p s"
  using reach_allIds [of p s] by auto


lemma bfs_gap:
  "map_option (\<lambda>r. (success r, finalPath r)) (runBFS gapGraph) = Some (True, Some [''B''])"
  by code_simp

lemma bfs_diagonal:
  "map_option (\<lambda>r. (success r, finalPath r, pathCost r)) (runBFS diagonalGrid)
     = Some (True, Some [''0-0'', ''1-1'', ''2-2''], Some 2)"
  by code_simp

lemma sum_diagonal: "sumPathCost diagonalGrid [''0-0'', ''1-1'', ''2-2''] 0 = 2.828"
  by code_simp

lemma walled_neighbors:
  "map (\<lambda>n. map fst (getNeighbors walledGrid n)) [''0-0'', ''1-0'', ''2-0'', ''2-1'', ''2-2'']
     = [[''1-0''], [''0-0'', ''2-0''], [''1-0'', ''2-1''], [''2-0'', ''2-2''], [''2-1'']]"
  by code_simp

lemma walled_ids: "getStartId walledGrid = ''0-0''" "getGoalId walledGrid = ''0-2''"
  by code_simp+

lemma hill_walled:
  "map_option (\<lambda>r. (success r, nodesVisited r)) (runHillClimbing walledGrid) = Some (False, 1)"
  by code_simp

lemma bfs_open:
  "map_option success (runBFS openGrid) = Some True"
  by code_simp

lemma walled_neighborIds:
  "neighborIds walledGrid ''0-0'' = {''1-0''}"
  "neighborIds walledGrid ''1-0'' = {''0-0'', ''2-0''}"
  "neighborIds walledGrid ''2-0'' = {''1-0'', ''2-1''}"
  "neighborIds walledGrid ''2-1'' = {''2-0'', ''2-2''}"
  "neighborIds walledGrid ''2-2'' = {''2-1''}"
  using walled_neighbors unfolding neighborIds_def
  by (simp_all only: list.map list.inject set_map [symmetric] list.set)

lemma walled_reach:
  "reach walledGrid ''0-0'' = {''0-0'', ''1-0'', ''2-0'', ''2-1'', ''2-2''}"
proof
  show "reach walledGrid ''0-0'' \<subseteq> {''0-0'', ''1-0'', ''2-0'', ''2-1'', ''2-2''}"
  proof (rule closed_reach)
    fix v assume "v \<in> {''0-0'', ''1-0'', ''2-0'', ''2-1'', ''2-2''}"
    then consider "v = ''0-0''" | "v = ''1-0''" | "v = ''2-0''" | "v = ''2-1''" | "v = ''2-2''"
      by (elim insertE emptyE)
    then show "neighborIds walledGrid v \<subseteq> {''0-0'', ''1-0'', ''2-0'', ''2-1'', ''2-2''}"
      by cases (simp_all only: walled_neighborIds, blast+)
  qed (simp only: insertI1)
  have 0: "''0-0'' \<in> reach walledGrid ''0-0''" by (rule reach_refl)
  have 1: "''1-0'' \<in> reach walledGrid ''0-0''"
    by (rule reach_step [OF 0]) (simp only: walled_neighborIds insertI1)
  have 2: "''2-0'' \<in> reach walledGrid ''0-0''"
    by (rule reach_step [OF 1]) (simp only: walled_neighborIds insertI1 insertI2)
  have 3: "''2-1'' \<in> reach walledGrid ''0-0''"
    by (rule reach_step [OF 2]) (simp only: walled_neighborIds insertI1 insertI2)
  have 4: "''2-2'' \<in> reach walledGrid ''0-0''"
    by (rule reach_step [OF 3]) (simp only: walled_neighborIds insertI1 insertI2)
  show "{''0-0'', ''1-0'', ''2-0'', ''2-1'', ''2-2''} \<subseteq> reach walledGrid ''0-0''"
    using 0 1 2 3 4 by (simp only: insert_subset empty_subsetI simp_thms)
qed

lemma walled_goal_unreachable: "getGoalId walledGrid \<notin> reach walledGrid (getStartId walledGrid)"
  unfolding walled_ids walled_reach by simp

lemma walled_card: "card (reach walledGrid (getStartId walledGrid)) = 5"
  unfolding walled_ids walled_reach by simp

lemma ucs_diagonal:
  "map_option (\<lambda>r. (success r, finalPath r, pathCost r)) (runUCS diagonalGrid)
     = Some (True, Some [''0-0'', ''1-1'', ''2-2''], Some 2.828)"
  by code_simp

lemma diagonal_path_entries:
  "\<forall>n \<in> set [''0-0'', ''1-1'', ''2-2'']. distinct (map fst (getNeighbors diagonalGrid n))"
  by code_simp

lemma weighted_ids: "getStartId weightedGrid = ''0-0''" "getGoalId weightedGrid = ''0-1''"
  by code_simp+

lemma ida_first_iteration:
  "(\<lambda>(r, s'). (found r, t r))
     (search weightedGrid ''0-1'' 1 [''0-0''] 0
        \<lparr>ida_gValues = Map.empty, ida_hValues = Map.empty, ida_fValues = Map.empty,
         ida_parentMap = Map.empty, ida_steps = [], ida_stepNumber = 1, ida_visited = []\<rparr>)
   = (False, Finite 2)"
  by code_simp

lemma ida_weighted_paths:
  "map_option (\<lambda>r. map frontier (steps r)) (runIDAStar weightedGrid)
     = Some [[''0-0''], [''0-0''], [''0-0'', ''0-1''], [''0-0'', ''1-0''], [''0-0''],
             [''0-0'', ''0-1'']]"
  by code_simp

section \<open>The claims of the specification\<close>

text \<open>
  C8. For a selector outside the closed set of eight, \<open>runAlgorithm\<close> throws the error
  and runs no algorithm: it returns no result, for any problem.
\<close>

theorem unknown_algorithm_fails:
  "alg \<notin> set algorithmTypes \<Longrightarrow> runAlgorithm alg p = Some (Inl (UnknownAlgorithm alg))"
  by (simp add: runAlgorithm_def algorithmTypes_def)

theorem unknown_algorithm_fails_witness:
  "''dijkstra'' \<notin> set algorithmTypes
   \<and> runAlgorithm ''dijkstra'' openGrid = Some (Inl (UnknownAlgorithm ''dijkstra''))"
proof -
  have h: "''dijkstra'' \<notin> set algorithmTypes"
    by (simp add: algorithmTypes_def)
  show ?thesis
    using h unknown_algorithm_fails [OF h, of openGrid] by simp
qed

text \<open>
  C7 (as amended). For a grid problem and a node id that decodes to \<open>(r, c)\<close>, the neighbor
  resolver returns exactly the entries of the in-bounds, non-obstacle candidate cells at the
  four orthogonal offsets (and the four diagonal ones when \<open>allowDiagonal\<close> is set), in the
  fixed order of the offsets, each at the cost 1.414 for a diagonal offset and 1 otherwise,
  times the weight of the target cell. The factor is the constant 1.414, not the square
  root of 2.
\<close>

theorem grid_neighbors_exact:
  assumes "idToGridCell nodeId = (Some r, Some c)"
  shows "getGridNeighbors g nodeId = specGridNeighbors g r c
         \<and> set (directions (allowDiagonal g))
             = orthogonalOffsets \<union> (if allowDiagonal g then diagonalOffsets else {})
         \<and> distinct (directions (allowDiagonal g))"
proof -
  have "set (directions (allowDiagonal g)) \<subseteq> orthogonalOffsets \<union> diagonalOffsets"
    by (auto simp: directions_offsets)
  from gridNeighborsLoop_spec [OF this, of g r c "[]"] assms
  show ?thesis
    by (simp add: getGridNeighbors_def specGridNeighbors_def directions_offsets directions_distinct)
qed

theorem grid_neighbors_exact_witness:
  "idToGridCell ''0-0'' = (Some 0, Some 0)
   \<and> getGridNeighbors ((createEmptyGrid 3 3)\<lparr>allowDiagonal := True\<rparr>) ''0-0''
       = specGridNeighbors ((createEmptyGrid 3 3)\<lparr>allowDiagonal := True\<rparr>) 0 0"
  using grid_neighbors_exact [OF idToGridCell_00, of "(createEmptyGrid 3 3)\<lparr>allowDiagonal := True\<rparr>"]
  by (simp add: idToGridCell_00)

text \<open>On the open grid with diagonal moves the diagonal neighbor of (0,0) costs 1.414,
  which is not the square root of 2 times its weight 1.\<close>

theorem diagonal_cost_counterexample:
  "getGridNeighbors ((createEmptyGrid 3 3)\<lparr>allowDiagonal := True\<rparr>) ''0-0''
     = [(''0-1'', 1), (''1-0'', 1), (''1-1'', 1.414)]
   \<and> (1.414 :: real) \<noteq> sqrt 2 * 1"
  using nbrs00 sqrt2_not_1414 by (simp add: diagonalGrid_def)

text \<open>
  C9 (as amended). Whenever the heuristic returns a number it is non-negative. On a graph
  problem it returns 0 when either identifier matches no node. On a grid problem it does
  not look the cells up: for the identifiers of two pairs of coordinates (non-negative
  integers below \<open>2\<^sup>5\<^sup>2\<close>) it returns the Manhattan distance of the coordinates, whether or
  not they are cells of the grid, and for an identifier without a dash it returns \<^verbatim>\<open>NaN\<close>.
\<close>

theorem heuristic_contract:
  "(\<forall>h. manhattanDistance a b p = Some h \<longrightarrow> 0 \<le> h)
   \<and> (\<forall>g. p = Graph g \<longrightarrow> (a \<notin> node_id ` set (nodes g) \<or> b \<notin> node_id ` set (nodes g))
          \<longrightarrow> manhattanDistance a b p = Some 0)
   \<and> (\<forall>g r1 c1 r2 c2. p = Grid g \<longrightarrow> safeCoordinate r1 \<longrightarrow> safeCoordinate c1
          \<longrightarrow> safeCoordinate r2 \<longrightarrow> safeCoordinate c2
          \<longrightarrow> a = gridCellToId r1 c1 \<longrightarrow> b = gridCellToId r2 c2
          \<longrightarrow> manhattanDistance a b p = Some (of_int (\<bar>r1 - r2\<bar> + \<bar>c1 - c2\<bar>)))
   \<and> (\<forall>g. p = Grid g \<longrightarrow> (CHR ''-'' \<notin> set a \<or> CHR ''-'' \<notin> set b)
          \<longrightarrow> manhattanDistance a b p = None)"
proof (intro conjI allI impI)
  fix h assume "manhattanDistance a b p = Some h"
  then show "0 \<le> h" by (rule manhattanDistance_nonneg)
next
  fix g assume p: "p = Graph g"
    and no: "a \<notin> node_id ` set (nodes g) \<or> b \<notin> node_id ` set (nodes g)"
  show "manhattanDistance a b p = Some 0"
    unfolding p using no by (rule manhattanDistance_no_node)
next
  fix g r1 c1 r2 c2
  assume p: "p = Grid g"
    and "safeCoordinate r1" "safeCoordinate c1" "safeCoordinate r2" "safeCoordinate c2"
    and a: "a = gridCellToId r1 c1" and b: "b = gridCellToId r2 c2"
  then have nn: "0 \<le> r1" "0 \<le> c1" "0 \<le> r2" "0 \<le> c2"
    by (simp_all add: safeCoordinate_def)
  show "manhattanDistance a b p = Some (of_int (\<bar>r1 - r2\<bar> + \<bar>c1 - c2\<bar>))"
    unfolding p a b by (rule manhattanDistance_roundtrip [OF nn])
next
  fix g assume p: "p = Grid g" and no: "CHR ''-'' \<notin> set a \<or> CHR ''-'' \<notin> set b"
  show "manhattanDistance a b p = None"
    unfolding p using no by (rule manhattanDistance_no_dash)
qed

theorem heuristic_contract_witness:
  "manhattanDistance ''N1'' ''N9'' twoNodeGraph = Some 0
   \<and> manhattanDistance (gridCellToId 0 0) (gridCellToId 2 9) openGrid = Some 11
   \<and> manhattanDistance ''N1'' (gridCellToId 2 2) openGrid = None"
proof -
  have 1: "''N9'' \<notin> node_id ` set (nodes \<lparr>nodes = [graphNode ''N1'' 0 0, graphNode ''N2'' 0 0],
            edges = [graphEdge ''N1'' ''N2'' 1],
            startNodeId = ''N1'', goalNodeId = ''N2'', isDirected = True\<rparr>)"
    by (simp add: graphNode_def)
  from heuristic_contract [of "''N1''" "''N9''" twoNodeGraph] 1
  have a: "manhattanDistance ''N1'' ''N9'' twoNodeGraph = Some 0"
    unfolding twoNodeGraph_def by blast
  have nn: "safeCoordinate 0" "safeCoordinate 2" "safeCoordinate 9"
    by (simp_all add: safeCoordinate_def)
  from heuristic_contract [of "gridCellToId 0 0" "gridCellToId 2 9" openGrid] nn
  have "manhattanDistance (gridCellToId 0 0) (gridCellToId 2 9) openGrid
          = Some (of_int (\<bar>0 - 2\<bar> + \<bar>0 - 9\<bar>))"
    unfolding openGrid_def by blast
  then have b: "manhattanDistance (gridCellToId 0 0) (gridCellToId 2 9) openGrid = Some 11"
    by simp
  have "CHR ''-'' \<notin> set ''N1''" by simp
  with heuristic_contract [of "''N1''" "gridCellToId 2 2" openGrid]
  have c: "manhattanDistance ''N1'' (gridCellToId 2 2) openGrid = None"
    unfolding openGrid_def by blast
  from a b c show ?thesis by (intro conjI)
qed

text \<open>On the 3 by 3 grid the id \<open>7-9\<close> names no cell, and \<open>x\<close> does not decode: the heuristic
  to the goal is 12 for the first and \<^verbatim>\<open>NaN\<close> for the second, not 0.\<close>

theorem heuristic_unresolvable_grid_counterexample:
  "manhattanDistance ''7-9'' ''2-2'' openGrid = Some 12
   \<and> ''7-9'' \<notin> allIds openGrid
   \<and> manhattanDistance ''x'' ''2-2'' openGrid = None"
  by code_simp

text \<open>
  C10. In every step that Greedy best-first, Hill climbing and Beam search record, the
  \<open>fValues\<close> map is the \<open>hValues\<close> map: the f value read for a node is its h value.
\<close>

theorem fvalues_are_hvalues:
  assumes "alg \<in> {''greedy'', ''hillClimbing'', ''beamSearch''}"
    and "runAlgorithm alg p = Some (Inr r)" and "x \<in> set (steps r)"
  shows "fValues x = hValues x"
proof -
  from runAlgorithm_fh [OF assms(1), of p] assms(2) have "fhInv (steps r)"
    by auto
  with assms(3) show ?thesis
    by (simp add: fhInv_def)
qed

theorem fvalues_are_hvalues_witness:
  "\<exists>r. runAlgorithm ''greedy'' openGrid = Some (Inr r) \<and> hd (steps r) \<in> set (steps r)
      \<and> fValues (hd (steps r)) = hValues (hd (steps r))"
proof -
  have alg: "''greedy'' \<in> {''greedy'', ''hillClimbing'', ''beamSearch''}"
    by (simp only: insertI1)
  obtain r where r: "runAlgorithm ''greedy'' openGrid = Some (Inr r)" "steps r \<noteq> []"
    using runGreedy_correct [of openGrid]
    by (auto simp: runAlgorithm_simps traceOk_def)
  then have "hd (steps r) \<in> set (steps r)" by simp
  with fvalues_are_hvalues [OF alg r(1) this] r(1) show ?thesis by blast
qed

text \<open>
  C5. On a problem none of whose identifiers names a member of \<^verbatim>\<open>Object.prototype\<close>, each of
  the eight algorithms returns a result, whether or not the goal is reachable (a problem
  is finite: its cells, nodes and edges are lists). For IDA*: the f-values a search from
  \<open>[startId]\<close> can meet are finitely many; a search that does not find the goal returns a
  threshold that is infinite, or one of these f-values strictly above the bound, which
  is the next bound; and the path recorded at every step of a run repeats no node, so
  that it is no longer than the number of identifiers plus one.
\<close>

theorem algorithms_terminate:
  assumes "alg \<in> set algorithmTypes" and "plainIds p"
  shows "(\<exists>r. runAlgorithm alg p = Some (Inr r))
       \<and> finite (idaThresholds p (getStartId p) (getGoalId p))
       \<and> (\<forall>bound s res s'.
             search p (getGoalId p) bound [getStartId p] 0 s = (res, s') \<longrightarrow> \<not> found res
             \<longrightarrow> aboveBound p (getStartId p) (getGoalId p) bound (t res))
       \<and> (\<forall>r x. runAlgorithm ''idaStar'' p = Some (Inr r) \<longrightarrow> x \<in> set (steps r)
             \<longrightarrow> distinct (frontier x) \<and> length (frontier x) \<le> Suc (card (allIds p)))"
proof (intro conjI allI impI)
  show "\<exists>r. runAlgorithm alg p = Some (Inr r)"
    using runAlgorithm_outcome [OF assms(1), of p] by blast
  show "finite (idaThresholds p (getStartId p) (getGoalId p))"
    by (rule finite_idaThresholds)
next
  fix bound s res s'
  assume "search p (getGoalId p) bound [getStartId p] 0 s = (res, s')" "\<not> found res"
  with search_threshold_aux(1) [of "[getStartId p]" 0 p "getStartId p" "getGoalId p" bound s]
  show "aboveBound p (getStartId p) (getGoalId p) bound (t res)"
    by (auto intro: idaCalls.root)
next
  fix r x assume "runAlgorithm ''idaStar'' p = Some (Inr r)" and x: "x \<in> set (steps r)"
  then have run: "runIDAStar p = Some r"
    by (auto simp: runAlgorithm_simps)
  from runIDAStar_paths [OF run x]
  show "distinct (frontier x)" "length (frontier x) \<le> Suc (card (allIds p))"
    by simp_all
qed

theorem algorithms_terminate_witness:
  "''idaStar'' \<in> set algorithmTypes \<and> plainIds weightedGrid
   \<and> (\<exists>r. runAlgorithm ''idaStar'' weightedGrid = Some (Inr r)
         \<and> last (steps r) \<in> set (steps r)
         \<and> frontier (last (steps r)) = [''0-0'', ''0-1'']
         \<and> distinct (frontier (last (steps r))))
   \<and> (\<exists>res s'. search weightedGrid ''0-1'' 1 [''0-0''] 0
          \<lparr>ida_gValues = Map.empty, ida_hValues = Map.empty, ida_fValues = Map.empty,
           ida_parentMap = Map.empty, ida_steps = [], ida_stepNumber = 1, ida_visited = []\<rparr>
            = (res, s')
        \<and> \<not> found res \<and> t res = Finite 2 \<and> aboveBound weightedGrid ''0-0'' ''0-1'' 1 (t res))"
proof -
  let ?s0 = "\<lparr>ida_gValues = Map.empty, ida_hValues = Map.empty, ida_fValues = Map.empty,
           ida_parentMap = Map.empty, ida_steps = [], ida_stepNumber = 1, ida_visited = []\<rparr>"
  have h: "''idaStar'' \<in> set algorithmTypes"
    by (simp add: algorithmTypes_def)
  have plain: "plainIds weightedGrid"
    unfolding weightedGrid_def by (rule grid_plainIds)
  note inst = algorithms_terminate [OF h plain]
  obtain r where r: "runAlgorithm ''idaStar'' weightedGrid = Some (Inr r)"
    and fr: "map frontier (steps r) = [[''0-0''], [''0-0''], [''0-0'', ''0-1''], [''0-0'', ''1-0''],
             [''0-0''], [''0-0'', ''0-1'']]"
    using ida_weighted_paths by (auto simp: runAlgorithm_simps)
  from fr have ne: "steps r \<noteq> []" by auto
  then have mem: "last (steps r) \<in> set (steps r)" by simp
  have "frontier (last (steps r)) = last (map frontier (steps r))"
    using ne by (simp add: last_map)
  then have lastp: "frontier (last (steps r)) = [''0-0'', ''0-1'']"
    unfolding fr by simp
  from inst r mem have d: "distinct (frontier (last (steps r)))"
    by blast
  obtain res s' where rs: "search weightedGrid ''0-1'' 1 [''0-0''] 0 ?s0 = (res, s')"
    by (cases "search weightedGrid ''0-1'' 1 [''0-0''] 0 ?s0") auto
  have nf: "\<not> found res" "t res = Finite 2"
    using ida_first_iteration unfolding rs by simp_all
  from inst
  have all: "\<forall>bound s res s'. search weightedGrid ''0-1'' bound [''0-0''] 0 s = (res, s')
            \<longrightarrow> \<not> found res \<longrightarrow> aboveBound weightedGrid ''0-0'' ''0-1'' bound (t res)"
    unfolding weighted_ids by blast
  from all rs nf(1) have "aboveBound weightedGrid ''0-0'' ''0-1'' 1 (t res)"
    by blast
  with h plain r mem lastp d rs nf show ?thesis by blast
qed

text \<open>
  C2 (as amended). When no identifier of the problem is the empty string or the name of a
  member of \<^verbatim>\<open>Object.prototype\<close> and the result has \<open>success\<close>, the returned path starts at
  the start id, ends at the goal id, repeats no id, and each of its consecutive pairs is
  a node and one of the neighbors the resolver lists for it.
\<close>

theorem path_valid:
  assumes "runAlgorithm alg p = Some (Inr r)" and "success r"
    and "[] \<notin> insert (getStartId p) (allIds p)" and "plainIds p"
  shows "\<exists>pth. finalPath r = Some pth \<and> pth \<noteq> [] \<and> hd pth = getStartId p
           \<and> last pth = getGoalId p \<and> distinct pth \<and> validPath p pth"
proof -
  have "alg \<in> set algorithmTypes"
    using assms(1) by (rule runAlgorithm_known)
  from runAlgorithm_outcome [OF this, of p] assms(1)
  have "outcomeOk p (getStartId p) (getGoalId p) r" by auto
  moreover have "[] \<notin> reach p (getStartId p)"
    using assms(3) by (rule reach_nonempty)
  ultimately show ?thesis
    using assms(2) by (auto simp: outcomeOk_def)
qed

theorem path_valid_witness:
  "\<exists>r pth. runAlgorithm ''bfs'' openGrid = Some (Inr r) \<and> success r
      \<and> [] \<notin> insert (getStartId openGrid) (allIds openGrid) \<and> plainIds openGrid
      \<and> finalPath r = Some pth \<and> hd pth = getStartId openGrid
      \<and> last pth = getGoalId openGrid \<and> distinct pth \<and> validPath openGrid pth"
proof -
  obtain r where r: "runAlgorithm ''bfs'' openGrid = Some (Inr r)" "success r"
    using bfs_open by (auto simp: runAlgorithm_simps)
  have ids: "[] \<notin> insert (getStartId openGrid) (allIds openGrid)"
    unfolding openGrid_def by (rule grid_ids_nonempty)
  have plain: "plainIds openGrid"
    unfolding openGrid_def by (rule grid_plainIds)
  from path_valid [OF r ids plain] r ids plain show ?thesis by blast
qed

text \<open>On the chain from A to B through the node whose identifier is the empty string,
  breadth-first search succeeds and returns the path \<open>[B]\<close>, which does not start at A.\<close>

theorem path_through_empty_id_counterexample:
  "\<exists>r. runAlgorithm ''bfs'' gapGraph = Some (Inr r) \<and> success r
      \<and> finalPath r = Some [''B''] \<and> getStartId gapGraph = ''A''"
  using bfs_gap by (auto simp: runAlgorithm_simps gapGraph_def)




text \<open>
  C4 (as amended). On a grid problem whose goal is not in the component reachable from the
  start, each of the eight algorithms returns a result without \<open>success\<close>, with no path,
  no path cost and a non-empty step trace. For BFS, DFS, UCS, Greedy and A* \<open>nodesVisited\<close>
  is the number of nodes of the reachable component of the start.
\<close>

theorem unreachable_goal:
  assumes "alg \<in> set algorithmTypes"
    and "getGoalId (Grid g) \<notin> reach (Grid g) (getStartId (Grid g))"
  shows "\<exists>r. runAlgorithm alg (Grid g) = Some (Inr r) \<and> \<not> success r \<and> finalPath r = None
           \<and> pathCost r = None \<and> steps r \<noteq> []
           \<and> (alg \<in> {''bfs'', ''dfs'', ''ucs'', ''greedy'', ''astar''}
                \<longrightarrow> nodesVisited r = card (reach (Grid g) (getStartId (Grid g))))"
proof -
  let ?p = "Grid g"
  from runAlgorithm_outcome [OF assms(1), of ?p] obtain r where
    r: "runAlgorithm alg ?p = Some (Inr r)" "outcomeOk ?p (getStartId ?p) (getGoalId ?p) r"
    by blast
  have ns: "\<not> success r"
    using r(2) assms(2) by (auto simp: outcomeOk_def)
  have "nodesVisited r = card (reach ?p (getStartId ?p))"
    if "alg \<in> {''bfs'', ''dfs'', ''ucs'', ''greedy'', ''astar''}"
    using runAlgorithm_exhaust [OF that, of ?p] r(1) ns by (auto simp: exhaustOk_def)
  with r ns show ?thesis
    by (auto simp: outcomeOk_def)
qed

theorem unreachable_goal_witness:
  "''bfs'' \<in> set algorithmTypes \<and> getGoalId walledGrid \<notin> reach walledGrid (getStartId walledGrid)
   \<and> (\<exists>r. runAlgorithm ''bfs'' walledGrid = Some (Inr r) \<and> \<not> success r \<and> finalPath r = None
         \<and> pathCost r = None \<and> steps r \<noteq> [] \<and> nodesVisited r = 5)"
proof -
  have alg: "''bfs'' \<in> set algorithmTypes"
    by (simp add: algorithmTypes_def)
  have bfs: "''bfs'' \<in> {''bfs'', ''dfs'', ''ucs'', ''greedy'', ''astar''}"
    by (simp only: insertI1)
  from unreachable_goal [OF alg walled_goal_unreachable [unfolded walledGrid_def],
      folded walledGrid_def] bfs
  obtain r where "runAlgorithm ''bfs'' walledGrid = Some (Inr r)" "\<not> success r"
    "finalPath r = None" "pathCost r = None" "steps r \<noteq> []"
    "nodesVisited r = card (reach walledGrid (getStartId walledGrid))"
    by blast
  with walled_card alg walled_goal_unreachable show ?thesis by auto
qed

text \<open>On the walled grid the component of the start has 5 cells; Hill climbing stops at the
  start, where no neighbor is closer to the goal, and reports 1 visited node.\<close>

theorem hill_climbing_unreachable_counterexample:
  "getGoalId walledGrid \<notin> reach walledGrid (getStartId walledGrid)
   \<and> card (reach walledGrid (getStartId walledGrid)) = 5
   \<and> (\<exists>r. runAlgorithm ''hillClimbing'' walledGrid = Some (Inr r) \<and> nodesVisited r = 1)"
  using hill_walled walled_goal_unreachable walled_card by (auto simp: runAlgorithm_simps)

text \<open>
  C1 (as amended). On a problem none of whose identifiers names a member of
  \<^verbatim>\<open>Object.prototype\<close> and on a successful run, BFS reports as \<open>pathCost\<close> the number of moves
  of the returned path, its length minus one. UCS and A*, when moreover no identifier is
  the empty string, report the sum along the returned path of a cost the neighbor
  resolver lists for each consecutive pair; where the resolver lists no neighbor of a
  node of the path twice, this is the sum \<open>sumPathCost\<close> computes.
\<close>

theorem reported_path_cost:
  assumes "alg \<in> {''bfs'', ''ucs'', ''astar''}" and "runAlgorithm alg p = Some (Inr r)"
    and "success r" and "plainIds p"
  shows "\<exists>pth. finalPath r = Some pth
           \<and> (alg = ''bfs'' \<longrightarrow> pathCost r = Some (real (length pth) - 1))
           \<and> (alg \<noteq> ''bfs'' \<longrightarrow> [] \<notin> insert (getStartId p) (allIds p) \<longrightarrow>
                (\<exists>c. pathCost r = Some c \<and> costAlong p pth c
                   \<and> ((\<forall>n \<in> set pth. distinct (map fst (getNeighbors p n)))
                        \<longrightarrow> c = sumPathCost p pth 0)))"
proof -
  consider "alg = ''bfs''" | "alg = ''ucs''" | "alg = ''astar''"
    using assms(1) by (elim insertE emptyE)
  then show ?thesis
  proof cases
    case 1
    then have "runBFS p = Some r"
      using assms(2) by (auto simp: runAlgorithm_simps)
    from runBFS_cost [OF this assms(3)] 1 show ?thesis by auto
  next
    case 2
    then have run: "runUCS p = Some r"
      using assms(2) by (auto simp: runAlgorithm_simps)
    have ne: "alg \<noteq> ''bfs''" using 2 by simp
    show ?thesis
    proof (cases "[] \<in> insert (getStartId p) (allIds p)")
      case True
      moreover obtain pth where "finalPath r = Some pth"
        using runUCS_correct [of p] run assms(3) by (auto simp: outcomeOk_def)
      ultimately show ?thesis using ne by blast
    next
      case False
      from runUCS_cost [OF run assms(3) reach_nonempty [OF False]] obtain pth c where
        "finalPath r = Some pth" "pathCost r = Some c" "costAlong p pth c"
        by blast
      with costAlong_sum [OF this(3)] ne show ?thesis by auto
    qed
  next
    case 3
    then have run: "runAStar p = Some r"
      using assms(2) by (auto simp: runAlgorithm_simps)
    have ne: "alg \<noteq> ''bfs''" using 3 by simp
    show ?thesis
    proof (cases "[] \<in> insert (getStartId p) (allIds p)")
      case True
      moreover obtain pth where "finalPath r = Some pth"
        using runAStar_correct [of p] run assms(3) by (auto simp: outcomeOk_def)
      ultimately show ?thesis using ne by blast
    next
      case False
      from runAStar_cost [OF run assms(3) reach_nonempty [OF False]] obtain pth c where
        "finalPath r = Some pth" "pathCost r = Some c" "costAlong p pth c"
        by blast
      with costAlong_sum [OF this(3)] ne show ?thesis by auto
    qed
  qed
qed

theorem reported_path_cost_witness:
  "\<exists>r. runAlgorithm ''ucs'' diagonalGrid = Some (Inr r) \<and> success r
      \<and> plainIds diagonalGrid
      \<and> finalPath r = Some [''0-0'', ''1-1'', ''2-2''] \<and> pathCost r = Some 2.828
      \<and> costAlong diagonalGrid [''0-0'', ''1-1'', ''2-2''] 2.828
      \<and> sumPathCost diagonalGrid [''0-0'', ''1-1'', ''2-2''] 0 = 2.828"
proof -
  have alg: "''ucs'' \<in> {''bfs'', ''ucs'', ''astar''}"
    by (simp only: insertI1 insertI2)
  obtain r where r: "runAlgorithm ''ucs'' diagonalGrid = Some (Inr r)" "success r"
    "finalPath r = Some [''0-0'', ''1-1'', ''2-2'']" "pathCost r = Some 2.828"
    using ucs_diagonal by (auto simp: runAlgorithm_simps)
  have ids: "[] \<notin> insert (getStartId diagonalGrid) (allIds diagonalGrid)"
    unfolding diagonalGrid_def by (rule grid_ids_nonempty)
  have plain: "plainIds diagonalGrid"
    unfolding diagonalGrid_def by (rule grid_plainIds)
  have ne: "''ucs'' \<noteq> ''bfs''" by simp
  from reported_path_cost [OF alg r(1,2) plain] ne ids obtain pth c where
    pc: "finalPath r = Some pth" "pathCost r = Some c" "costAlong diagonalGrid pth c"
      "(\<forall>n \<in> set pth. distinct (map fst (getNeighbors diagonalGrid n)))
         \<longrightarrow> c = sumPathCost diagonalGrid pth 0"
    by blast
  have pth: "pth = [''0-0'', ''1-1'', ''2-2'']" using pc(1) r(3) by simp
  have c: "c = 2.828" using pc(2) r(4) by simp
  have sum: "c = sumPathCost diagonalGrid pth 0"
    using pc(4) diagonal_path_entries unfolding pth by blast
  have "costAlong diagonalGrid [''0-0'', ''1-1'', ''2-2''] 2.828"
    using pc(3) unfolding pth c .
  moreover have "sumPathCost diagonalGrid [''0-0'', ''1-1'', ''2-2''] 0 = 2.828"
    using sum [symmetric] unfolding pth c .
  ultimately show ?thesis using r plain by blast
qed

text \<open>On the open grid with diagonal moves BFS returns the diagonal, two moves of cost
  1.414 each, and reports the path cost 2, not 2.828.\<close>

theorem bfs_path_cost_counterexample:
  "\<exists>r. runAlgorithm ''bfs'' diagonalGrid = Some (Inr r) \<and> success r
      \<and> finalPath r = Some [''0-0'', ''1-1'', ''2-2''] \<and> pathCost r = Some 2
      \<and> sumPathCost diagonalGrid [''0-0'', ''1-1'', ''2-2''] 0 = 2.828"
  using bfs_diagonal sum_diagonal by (auto simp: runAlgorithm_simps)

text \<open>
  C6. When the start identifier is the goal identifier, is not the empty string and does
  not name a member of \<^verbatim>\<open>Object.prototype\<close>, each of the eight algorithms returns a result
  with \<open>success\<close>, the path \<open>[start]\<close>, the path cost 0 and one visited node, after at most
  two recorded steps.
\<close>

theorem start_is_goal:
  assumes "alg \<in> set algorithmTypes" and "getStartId p = getGoalId p" and "getStartId p \<noteq> []"
    and "getStartId p \<notin> set objectPrototypeNames"
  shows "\<exists>r. runAlgorithm alg p = Some (Inr r) \<and> success r \<and> finalPath r = Some [getStartId p]
           \<and> pathCost r = Some 0 \<and> nodesVisited r = 1 \<and> length (steps r) \<le> 2"
  using assms(1)
proof (cases rule: algorithmTypes_cases)
  case 1
  with runBFS_same [OF assms(2,3)] show ?thesis by (auto simp: runAlgorithm_simps)
next
  case 2
  with runDFS_same [OF assms(2,3)] show ?thesis by (auto simp: runAlgorithm_simps)
next
  case 3
  with runUCS_same [OF assms(2,3)] show ?thesis by (auto simp: runAlgorithm_simps)
next
  case 4
  with runGreedy_same [OF assms(2,3)] show ?thesis by (auto simp: runAlgorithm_simps)
next
  case 5
  with runAStar_same [OF assms(2,3)] show ?thesis by (auto simp: runAlgorithm_simps)
next
  case 6
  with runHillClimbing_same [OF assms(2,3)] show ?thesis by (auto simp: runAlgorithm_simps)
next
  case 7
  with runBeamSearch_same [OF assms(2,3), of 2] show ?thesis by (auto simp: runAlgorithm_simps)
next
  case 8
  with runIDAStar_same [OF assms(2,3)] show ?thesis by (auto simp: runAlgorithm_simps)
qed

theorem start_is_goal_witness:
  "''idaStar'' \<in> set algorithmTypes
   \<and> getStartId (Grid ((createEmptyGrid 3 3)\<lparr>goal := (0, 0)\<rparr>))
       = getGoalId (Grid ((createEmptyGrid 3 3)\<lparr>goal := (0, 0)\<rparr>))
   \<and> getStartId (Grid ((createEmptyGrid 3 3)\<lparr>goal := (0, 0)\<rparr>)) = ''0-0''
   \<and> ''0-0'' \<notin> set objectPrototypeNames
   \<and> (\<exists>r. runAlgorithm ''idaStar'' (Grid ((createEmptyGrid 3 3)\<lparr>goal := (0, 0)\<rparr>)) = Some (Inr r)
         \<and> success r \<and> finalPath r = Some [''0-0''] \<and> pathCost r = Some 0
         \<and> nodesVisited r = 1)"
proof -
  let ?p = "Grid ((createEmptyGrid 3 3)\<lparr>goal := (0, 0)\<rparr>)"
  have alg: "''idaStar'' \<in> set algorithmTypes"
    by (simp add: algorithmTypes_def)
  have same: "getStartId ?p = getGoalId ?p"
    by (simp add: createEmptyGrid_def)
  have s: "getStartId ?p = ''0-0''"
    by code_simp
  then have ne: "getStartId ?p \<noteq> []" by simp
  have np: "''0-0'' \<notin> set objectPrototypeNames"
    by (simp add: objectPrototypeNames_def)
  then have np': "getStartId ?p \<notin> set objectPrototypeNames"
    unfolding s .
  from start_is_goal [OF alg same ne np'] obtain r where
    r: "runAlgorithm ''idaStar'' ?p = Some (Inr r)" "success r"
      "finalPath r = Some [getStartId ?p]" "pathCost r = Some 0" "nodesVisited r = 1"
    by blast
  have "finalPath r = Some [''0-0'']" using r(3) unfolding s .
  with alg same s np r show ?thesis by blast
qed

end
